theory Spec2Isabelle
  imports Main "HOL-Library.Word" "HOL-Library.List_Lexorder" "HOL-Library.Char_ord"
    "HOL-Library.Code_Target_Numeral"
begin

unbundle bit_operations_syntax

section \<open>Data model\<close>

text \<open>
  A \<open>Uint8Array\<close> is a list of bytes. Every buffer of the source is
  freshly allocated (byte offset 0), so a buffer and the typed array on it hold the
  same bytes. A JavaScript \<open>number\<close> that holds an integer is an \<open>int\<close>; a
  \<open>bigint\<close> built from bytes is a \<open>nat\<close>. A string is a list of 8-bit
  characters: the model covers the strings whose code units are below 256.
\<close>

type_synonym byte = "8 word"

text \<open>
  The values thrown by the source, named as the specification names them.
  \<^item> \<open>InvalidLength\<close>: \<open>Error('Mnemonic must have exactly 25 words')\<close>
  \<^item> \<open>UnknownWord w\<close>: \<open>Error(`Word not found in wordlist: ${w}`)\<close>
  \<^item> \<open>EncodingError\<close>: \<open>Error('Invalid mnemonic encoding')\<close>
  \<^item> \<open>InvalidChecksum\<close>: \<open>Error('Invalid mnemonic checksum')\<close>
  \<^item> \<open>EntropyExhausted\<close>: \<open>Error('Failed to generate valid scalar after 1000 attempts')\<close>
  \<^item> \<open>InvalidSize\<close>: \<open>Error('Invalid size')\<close>
  \<^item> \<open>NoSecureRandom\<close>: \<open>Error('No secure random number generator available')\<close>
  \<^item> \<open>TypeError\<close>, \<open>RangeError\<close>, \<open>ReferenceError\<close>: thrown by the JavaScript
    runtime (a method call on \<open>undefined\<close>, \<open>BigInt(undefined)\<close>, a view or a
    \<open>set\<close> beyond its buffer, an undeclared name); a \<open>RangeError\<close> is also what
    the Ed25519 library throws on a scalar out of its range.
  \<^item> \<open>LibraryError\<close>: whatever an imported library throws.
\<close>

datatype error =
    InvalidLength
  | UnknownWord string
  | EncodingError
  | InvalidChecksum
  | EntropyExhausted
  | InvalidSize
  | NoSecureRandom
  | TypeError
  | RangeError
  | ReferenceError
  | LibraryError

text \<open>Sequencing of computations that may throw: the first error wins.\<close>

definition bind :: "error + 'a \<Rightarrow> ('a \<Rightarrow> error + 'b) \<Rightarrow> error + 'b" where
  "bind m f = (case m of Inl e \<Rightarrow> Inl e | Inr v \<Rightarrow> f v)"

section \<open>JavaScript primitives used by the source\<close>

subsection \<open>32-bit operators\<close>

text \<open>
  \<open>a & b\<close> and \<open>a | b\<close> convert both operands with ToInt32 and give a signed
  32-bit result; \<open>a >>> k\<close> converts \<open>a\<close> with ToUint32 and shifts by \<open>k mod 32\<close>.
\<close>

definition ToUint32 :: "int \<Rightarrow> int" where
  "ToUint32 a = a mod 2 ^ 32"

definition ToInt32 :: "int \<Rightarrow> int" where
  "ToInt32 a =
     (let int32bit = a mod 2 ^ 32
      in if int32bit \<ge> 2 ^ 31 then int32bit - 2 ^ 32 else int32bit)"

definition js_and :: "int \<Rightarrow> int \<Rightarrow> int" where
  "js_and a b = ToInt32 a AND ToInt32 b"

definition js_or :: "int \<Rightarrow> int \<Rightarrow> int" where
  "js_or a b = ToInt32 a OR ToInt32 b"

definition js_ushr :: "int \<Rightarrow> nat \<Rightarrow> int" where
  "js_ushr a k = ToUint32 a div 2 ^ (k mod 32)"

subsection \<open>Typed arrays and arrays\<close>

text \<open>\<open>new Uint8Array(numbers)\<close>: every element is stored modulo 256.\<close>

definition Uint8Array_from :: "int list \<Rightarrow> byte list" where
  "Uint8Array_from ns = map word_of_int ns"

text \<open>\<open>a[i]\<close> on a typed array: \<open>None\<close> is \<open>undefined\<close>.\<close>

definition ua_get :: "byte list \<Rightarrow> nat \<Rightarrow> byte option" where
  "ua_get a i = (if i < length a then Some (a ! i) else None)"

text \<open>\<open>a.slice(begin, end)\<close> with non-negative bounds.\<close>

definition slice :: "'a list \<Rightarrow> nat \<Rightarrow> nat \<Rightarrow> 'a list" where
  "slice a b e = take (e - b) (drop b a)"

text \<open>
  \<open>target.set(source, offset)\<close> on a typed array: a RangeError when the source does
  not fit.
\<close>

definition ua_set :: "byte list \<Rightarrow> byte list \<Rightarrow> nat \<Rightarrow> error + byte list" where
  "ua_set target source offset =
     (if offset + length source > length target then Inl RangeError
      else Inr (take offset target @ source @ drop (offset + length source) target))"

text \<open>
  \<open>result[i] = v\<close> on an ordinary array of strings, read back by \<open>join\<close> only: a
  negative index creates a property that \<open>join\<close> does not see; an index beyond the
  end extends the array with holes, which \<open>join\<close> prints as empty strings.
\<close>

definition array_set :: "string list \<Rightarrow> int \<Rightarrow> string \<Rightarrow> string list" where
  "array_set a i v =
     (if i < 0 then a
      else if nat i < length a then a[nat i := v]
      else a @ replicate (nat i - length a) [] @ [v])"

text \<open>\<open>s[i]\<close> on a string, as \<open>join\<close> prints it: \<open>undefined\<close> becomes the empty string.\<close>

definition str_index :: "string \<Rightarrow> nat \<Rightarrow> string" where
  "str_index s i = (if i < length s then [s ! i] else [])"

subsection \<open>Strings\<close>

text \<open>
  White space and line terminators among the code units below 256: what \<open>trim\<close>
  removes and what the white-space class of a regular expression matches.
\<close>

definition is_space :: "char \<Rightarrow> bool" where
  "is_space c =
     (c \<in> {CHR 0x09, CHR 0x0A, CHR 0x0B, CHR 0x0C, CHR 0x0D, CHR 0x20, CHR 0xA0})"

definition trim :: "string \<Rightarrow> string" where
  "trim s = rev (dropWhile is_space (rev (dropWhile is_space s)))"

text \<open>
  \<open>s.split\<close> on a regular expression for runs of white space: the pieces between
  the maximal runs; a run at the start or at the end leaves an empty piece, and the
  empty string gives one empty piece.
\<close>

function split_ws :: "string \<Rightarrow> string list" where
  "split_ws [] = [[]]"
| "split_ws (c # cs) =
     (if is_space c then [] # split_ws (dropWhile is_space cs)
      else (case split_ws cs of [] \<Rightarrow> [[c]] | w # ws \<Rightarrow> (c # w) # ws))"
  by pat_completeness auto
termination
  by (relation "measure length") (auto simp: length_dropWhile_le less_Suc_eq_le)

text \<open>\<open>words.join(sep)\<close>; an \<open>undefined\<close> element (\<open>None\<close>) is printed empty.\<close>

fun join :: "string \<Rightarrow> string option list \<Rightarrow> string" where
  "join sep [] = []"
| "join sep [w] = (case w of None \<Rightarrow> [] | Some s \<Rightarrow> s)"
| "join sep (w # ws) = (case w of None \<Rightarrow> [] | Some s \<Rightarrow> s) @ sep @ join sep ws"

text \<open>\<open>a.indexOf(x)\<close>: the first position of \<open>x\<close>, or \<open>-1\<close>.\<close>

fun indexOf_from :: "'a list \<Rightarrow> 'a \<Rightarrow> int \<Rightarrow> int" where
  "indexOf_from [] x i = -1"
| "indexOf_from (y # ys) x i = (if y = x then i else indexOf_from ys x (i + 1))"

definition indexOf :: "'a list \<Rightarrow> 'a \<Rightarrow> int" where
  "indexOf a x = indexOf_from a x 0"

subsection \<open>Hexadecimal\<close>

definition hex_digit :: "nat \<Rightarrow> char" where
  "hex_digit n = ''0123456789abcdef'' ! (n mod 16)"

text \<open>\<open>b.toString(16).padStart(2, '0')\<close> for a byte.\<close>

definition byte_to_hex :: "byte \<Rightarrow> string" where
  "byte_to_hex b = [hex_digit (unat b div 16), hex_digit (unat b mod 16)]"

definition bytesToHex :: "byte list \<Rightarrow> string" where
  "bytesToHex bytes = concat (map byte_to_hex bytes)"

definition hex_value :: "char \<Rightarrow> nat option" where
  "hex_value c =
     (let n = of_char c :: nat
      in if 48 \<le> n \<and> n \<le> 57 then Some (n - 48)
         else if 97 \<le> n \<and> n \<le> 102 then Some (n - 87)
         else if 65 \<le> n \<and> n \<le> 70 then Some (n - 55)
         else None)"

text \<open>
  \<open>parseInt(s, 16)\<close>: leading white space is skipped, then an optional sign, then an
  optional \<open>0x\<close> or \<open>0X\<close>, then the longest run of hexadecimal digits; no digit
  gives \<open>NaN\<close> (\<open>None\<close>).
\<close>

definition strip_0x :: "string \<Rightarrow> string" where
  "strip_0x s =
     (case s of
        c # d # r \<Rightarrow> if c = CHR ''0'' \<and> (d = CHR ''x'' \<or> d = CHR ''X'') then r else s
      | _ \<Rightarrow> s)"

definition hex_digits_value :: "string \<Rightarrow> int option" where
  "hex_digits_value s =
     (let ds = takeWhile (\<lambda>c. hex_value c \<noteq> None) s
      in if ds = [] then None
         else Some (foldl (\<lambda>acc c. 16 * acc + int (the (hex_value c))) 0 ds))"

definition parseInt16 :: "string \<Rightarrow> int option" where
  "parseInt16 s =
     (let t = dropWhile is_space s;
          neg = (t \<noteq> [] \<and> hd t = CHR ''-'');
          u = (if t \<noteq> [] \<and> (hd t = CHR ''-'' \<or> hd t = CHR ''+'') then tl t else t)
      in map_option (\<lambda>v. if neg then - v else v) (hex_digits_value (strip_0x u)))"

text \<open>Storing a number into a \<open>Uint8Array\<close>: \<open>NaN\<close> is stored as 0.\<close>

definition to_uint8 :: "int option \<Rightarrow> byte" where
  "to_uint8 v = (case v of None \<Rightarrow> 0 | Some n \<Rightarrow> word_of_int n)"

text \<open>
  \<^verbatim>\<open>
  function hexToBytes(hex: string): Uint8Array {
    const bytes = new Uint8Array(hex.length / 2);
    for (let i = 0; i < bytes.length; i++) {
      bytes[i] = parseInt(hex.substr(i * 2, 2), 16);
    }
    return bytes;
  }
  \<close>
  The length of the array is \<open>hex.length / 2\<close> truncated.
\<close>

definition hexToBytes :: "string \<Rightarrow> byte list" where
  "hexToBytes hex =
     map (\<lambda>i. to_uint8 (parseInt16 (take 2 (drop (i * 2) hex)))) [0..<length hex div 2]"

subsection \<open>CRC-32\<close>

text \<open>
  \<^verbatim>\<open>
  function crc32(str: string): number {
    const table = new Uint32Array(256);
    for (let i = 0; i < 256; i++) {
      let crc = i;
      for (let j = 0; j < 8; j++) {
        crc = (crc & 1) ? (0xEDB88320 ^ (crc >>> 1)) : (crc >>> 1);
      }
      table[i] = crc;
    }
    let crc = 0xFFFFFFFF;
    for (let i = 0; i < str.length; i++) {
      crc = (crc >>> 8) ^ table[(crc ^ str.charCodeAt(i)) & 0xFF];
    }
    return (crc ^ 0xFFFFFFFF) >>> 0;
  }
  \<close>
  Every operator here is a 32-bit one, so the running value is a 32-bit word and the
  result is its unsigned reading.
\<close>

definition crc_step :: "32 word \<Rightarrow> 32 word" where
  "crc_step crc = (if crc AND 1 \<noteq> 0 then 0xEDB88320 XOR drop_bit 1 crc else drop_bit 1 crc)"

definition crc_table :: "32 word list" where
  "crc_table = map (\<lambda>i. (crc_step ^^ 8) (of_nat i)) [0..<256]"

definition crc_update :: "32 word \<Rightarrow> char \<Rightarrow> 32 word" where
  "crc_update crc c = drop_bit 8 crc XOR crc_table ! unat ((crc XOR of_char c) AND 0xFF)"

definition crc32 :: "string \<Rightarrow> nat" where
  "crc32 str = unat (foldl crc_update 0xFFFFFFFF str XOR 0xFFFFFFFF)"

section \<open>Word list\<close>

definition WORDLIST :: "string list" where
  "WORDLIST = [
   ''abbey'', ''abducts'', ''ability'', ''ablaze'', ''abnormal'', ''abort'', ''abrasive'', ''absorb'',
   ''abyss'', ''academy'', ''aces'', ''aching'', ''acidic'', ''acoustic'', ''acquire'', ''across'',
   ''actress'', ''acumen'', ''adapt'', ''addicted'', ''adept'', ''adhesive'', ''adjust'', ''adopt'',
   ''adrenalin'', ''adult'', ''adventure'', ''aerial'', ''afar'', ''affair'', ''afield'', ''afloat'',
   ''afoot'', ''afraid'', ''after'', ''against'', ''agenda'', ''aggravate'', ''agile'', ''aglow'',
   ''agnostic'', ''agony'', ''agreed'', ''ahead'', ''aided'', ''ailments'', ''aimless'', ''airport'',
   ''aisle'', ''ajar'', ''akin'', ''alarms'', ''album'', ''alchemy'', ''alerts'', ''algebra'',
   ''alkaline'', ''alley'', ''almost'', ''aloof'', ''alpine'', ''already'', ''also'', ''altitude'',
   ''alumni'', ''always'', ''amaze'', ''ambush'', ''amended'', ''amidst'', ''ammo'', ''amnesty'',
   ''among'', ''amply'', ''amused'', ''anchor'', ''android'', ''anecdote'', ''angled'', ''ankle'',
   ''annoyed'', ''answers'', ''antics'', ''anvil'', ''anxiety'', ''anybody'', ''apart'', ''apex'',
   ''aphid'', ''aplomb'', ''apology'', ''apply'', ''apricot'', ''aptitude'', ''aquarium'', ''arbitrary'',
   ''archer'', ''ardent'', ''arena'', ''argue'', ''arises'', ''army'', ''around'', ''arrow'',
   ''arsenic'', ''artistic'', ''ascend'', ''ashtray'', ''aside'', ''asked'', ''asleep'', ''aspire'',
   ''assorted'', ''asylum'', ''athlete'', ''atlas'', ''atom'', ''atrium'', ''attire'', ''auburn'',
   ''auctions'', ''audio'', ''august'', ''aunt'', ''austere'', ''autumn'', ''avatar'', ''avidly'',
   ''avoid'', ''awakened'', ''awesome'', ''awful'', ''awkward'', ''awning'', ''awoken'', ''axes'',
   ''axis'', ''axle'', ''aztec'', ''azure'', ''baby'', ''bacon'', ''badge'', ''baffles'',
   ''bagpipe'', ''bailed'', ''bakery'', ''balding'', ''bamboo'', ''banjo'', ''baptism'', ''basin'',
   ''batch'', ''bawled'', ''bays'', ''because'', ''beer'', ''befit'', ''begun'', ''behind'',
   ''being'', ''below'', ''bemused'', ''benches'', ''berries'', ''bested'', ''betting'', ''bevel'',
   ''beware'', ''beyond'', ''bias'', ''bicycle'', ''bids'', ''bifocals'', ''biggest'', ''bikini'',
   ''bimonthly'', ''binocular'', ''biology'', ''biplane'', ''birth'', ''biscuit'', ''bite'', ''biweekly'',
   ''blender'', ''blip'', ''bluntly'', ''boat'', ''bobsled'', ''bodies'', ''bogeys'', ''boil'',
   ''boldly'', ''bomb'', ''border'', ''boss'', ''both'', ''bounced'', ''bovine'', ''bowling'',
   ''boxes'', ''boyfriend'', ''broken'', ''brunt'', ''bubble'', ''buckets'', ''budget'', ''buffet'',
   ''bugs'', ''building'', ''bulb'', ''bumper'', ''bunch'', ''business'', ''butter'', ''buying'',
   ''buzzer'', ''bygones'', ''byline'', ''bypass'', ''cabin'', ''cactus'', ''cadets'', ''cafe'',
   ''cage'', ''cajun'', ''cake'', ''calamity'', ''camp'', ''candy'', ''casket'', ''catch'',
   ''cause'', ''cavernous'', ''cease'', ''cedar'', ''ceiling'', ''cell'', ''cement'', ''cent'',
   ''certain'', ''chlorine'', ''chrome'', ''cider'', ''cigar'', ''cinema'', ''circle'', ''cistern'',
   ''citadel'', ''civilian'', ''claim'', ''click'', ''clue'', ''coal'', ''cobra'', ''cocoa'',
   ''code'', ''coexist'', ''coffee'', ''cogs'', ''cohesive'', ''coils'', ''colony'', ''comb'',
   ''cool'', ''copy'', ''corrode'', ''costume'', ''cottage'', ''cousin'', ''cowl'', ''criminal'',
   ''cube'', ''cucumber'', ''cuddled'', ''cuffs'', ''cuisine'', ''cunning'', ''cupcake'', ''custom'',
   ''cycling'', ''cylinder'', ''cynical'', ''dabbing'', ''dads'', ''daft'', ''dagger'', ''daily'',
   ''damp'', ''dangerous'', ''dapper'', ''darted'', ''dash'', ''dating'', ''dauntless'', ''dawn'',
   ''daytime'', ''dazed'', ''debut'', ''decay'', ''dedicated'', ''deepest'', ''deftly'', ''degrees'',
   ''dehydrate'', ''deity'', ''dejected'', ''delayed'', ''demonstrate'', ''dented'', ''deodorant'', ''depth'',
   ''desk'', ''devoid'', ''dewdrop'', ''dexterity'', ''dialect'', ''dice'', ''diet'', ''different'',
   ''digit'', ''dilute'', ''dime'', ''dinner'', ''diode'', ''diplomat'', ''directed'', ''distance'',
   ''ditch'', ''divers'', ''dizzy'', ''doctor'', ''dodge'', ''does'', ''dogs'', ''doing'',
   ''dolphin'', ''domestic'', ''donuts'', ''doorway'', ''dormant'', ''dosage'', ''dotted'', ''double'',
   ''dove'', ''down'', ''dozen'', ''dreams'', ''drinks'', ''drowning'', ''drunk'', ''drying'',
   ''dual'', ''dubbed'', ''duckling'', ''dude'', ''duets'', ''duke'', ''dullness'', ''dummy'',
   ''dunes'', ''duplex'', ''duration'', ''dusted'', ''duties'', ''dwarf'', ''dwelt'', ''dwindling'',
   ''dying'', ''dynamite'', ''dyslexic'', ''each'', ''eagle'', ''earth'', ''easy'', ''eating'',
   ''eavesdrop'', ''eccentric'', ''echo'', ''eclipse'', ''economics'', ''ecstatic'', ''eden'', ''edgy'',
   ''edited'', ''educated'', ''eels'', ''efficient'', ''eggs'', ''egotistic'', ''eight'', ''either'',
   ''eject'', ''elapse'', ''elbow'', ''eldest'', ''eleven'', ''elite'', ''elope'', ''else'',
   ''eluded'', ''emails'', ''ember'', ''emerge'', ''emit'', ''emotion'', ''empty'', ''emulate'',
   ''energy'', ''enforce'', ''enhanced'', ''enigma'', ''enjoy'', ''enlist'', ''enmity'', ''enough'',
   ''enraged'', ''ensign'', ''entrance'', ''envy'', ''epoxy'', ''equip'', ''erase'', ''erected'',
   ''erosion'', ''error'', ''eskimos'', ''espionage'', ''essential'', ''estate'', ''etched'', ''eternal'',
   ''ethics'', ''etiquette'', ''evaluate'', ''evenings'', ''evicted'', ''evolved'', ''examine'', ''excess'',
   ''exhale'', ''exit'', ''exotic'', ''exquisite'', ''extra'', ''exult'', ''fabrics'', ''factual'',
   ''fading'', ''fainted'', ''faked'', ''fall'', ''family'', ''fancy'', ''farming'', ''fatal'',
   ''faulty'', ''fawns'', ''faxed'', ''fazed'', ''feast'', ''february'', ''federal'', ''feel'',
   ''feline'', ''females'', ''fences'', ''ferry'', ''festival'', ''fetches'', ''fever'', ''fewest'',
   ''fiat'', ''fibula'', ''fictional'', ''fidget'', ''fierce'', ''fifteen'', ''fight'', ''films'',
   ''firm'', ''fishing'', ''fitting'', ''five'', ''fixate'', ''fizzle'', ''fleet'', ''flippant'',
   ''flying'', ''foamy'', ''focus'', ''foes'', ''foggy'', ''foiled'', ''folding'', ''fonts'',
   ''foolish'', ''fossil'', ''fountain'', ''fowls'', ''foxes'', ''foyer'', ''framed'', ''friendly'',
   ''frown'', ''fruit'', ''frying'', ''fudge'', ''fuel'', ''fugitive'', ''fully'', ''fuming'',
   ''fungal'', ''furnished'', ''fuselage'', ''future'', ''fuzzy'', ''gables'', ''gadget'', ''gags'',
   ''gained'', ''galaxy'', ''gambit'', ''gang'', ''gasp'', ''gather'', ''gauze'', ''gave'',
   ''gawk'', ''gaze'', ''gearbox'', ''gecko'', ''geek'', ''gels'', ''gemstone'', ''general'',
   ''geometry'', ''germs'', ''gesture'', ''getting'', ''geyser'', ''ghetto'', ''ghost'', ''giant'',
   ''giddy'', ''gifts'', ''gigantic'', ''gills'', ''gimmick'', ''ginger'', ''girth'', ''giving'',
   ''glass'', ''gleeful'', ''glide'', ''gnaw'', ''gnome'', ''goat'', ''goblet'', ''godfather'',
   ''goes'', ''goggles'', ''going'', ''goldfish'', ''gone'', ''goodbye'', ''gopher'', ''gorilla'',
   ''gossip'', ''gotten'', ''gourmet'', ''governing'', ''gown'', ''greater'', ''grunt'', ''guarded'',
   ''guest'', ''guide'', ''gulp'', ''gumball'', ''guru'', ''gusts'', ''gutter'', ''guys'',
   ''gymnast'', ''gypsy'', ''gyrate'', ''habitat'', ''hacksaw'', ''haggled'', ''hairy'', ''hamburger'',
   ''happens'', ''hashing'', ''hatchet'', ''haunted'', ''having'', ''hawk'', ''haystack'', ''hazard'',
   ''hectare'', ''hedgehog'', ''heels'', ''hefty'', ''height'', ''hemlock'', ''hence'', ''heron'',
   ''hesitate'', ''hexagon'', ''hickory'', ''hiding'', ''highway'', ''hijack'', ''hiker'', ''hills'',
   ''himself'', ''hinder'', ''hippo'', ''hire'', ''history'', ''hitched'', ''hive'', ''hoax'',
   ''hobby'', ''hockey'', ''hoisting'', ''hold'', ''honked'', ''hookup'', ''hope'', ''hornet'',
   ''hospital'', ''hotel'', ''hounded'', ''hover'', ''howls'', ''hubcaps'', ''huddle'', ''huge'',
   ''hull'', ''humid'', ''hunter'', ''hurried'', ''husband'', ''huts'', ''hybrid'', ''hydrogen'',
   ''hyper'', ''iceberg'', ''icing'', ''icon'', ''identity'', ''idiom'', ''idled'', ''idols'',
   ''igloo'', ''ignore'', ''iguana'', ''illness'', ''imagine'', ''imbalance'', ''imitate'', ''impel'',
   ''inactive'', ''inbound'', ''incur'', ''industrial'', ''inexact'', ''inflamed'', ''ingested'', ''initiate'',
   ''injury'', ''inkling'', ''inline'', ''inmate'', ''innocent'', ''inorganic'', ''input'', ''inquest'',
   ''inroads'', ''insult'', ''intended'', ''inundate'', ''invoke'', ''inwardly'', ''ionic'', ''irate'',
   ''iris'', ''irony'', ''irritate'', ''island'', ''isolated'', ''issued'', ''italics'', ''itches'',
   ''items'', ''itinerary'', ''itself'', ''ivory'', ''jabbed'', ''jackets'', ''jaded'', ''jagged'',
   ''jailed'', ''jamming'', ''january'', ''jargon'', ''jaunt'', ''javelin'', ''jaws'', ''jazz'',
   ''jeans'', ''jeers'', ''jellyfish'', ''jeopardy'', ''jerseys'', ''jester'', ''jetting'', ''jewels'',
   ''jigsaw'', ''jingle'', ''jittery'', ''jive'', ''jobs'', ''jockey'', ''jogger'', ''joining'',
   ''joking'', ''jolted'', ''jostle'', ''journal'', ''joyous'', ''jubilee'', ''judge'', ''juggled'',
   ''juicy'', ''jukebox'', ''july'', ''jump'', ''junk'', ''jury'', ''justice'', ''juvenile'',
   ''kangaroo'', ''karate'', ''keep'', ''kennel'', ''kept'', ''kernels'', ''kettle'', ''keyboard'',
   ''kickoff'', ''kidneys'', ''king'', ''kiosk'', ''kisses'', ''kitchens'', ''kiwi'', ''knapsack'',
   ''knee'', ''knife'', ''knowledge'', ''knuckle'', ''koala'', ''laboratory'', ''ladder'', ''lagoon'',
   ''lair'', ''lakes'', ''lamb'', ''language'', ''laptop'', ''large'', ''last'', ''later'',
   ''launching'', ''lava'', ''lawsuit'', ''layout'', ''lazy'', ''lectures'', ''ledge'', ''leech'',
   ''left'', ''legion'', ''leisure'', ''lemon'', ''lending'', ''leopard'', ''lesson'', ''lettuce'',
   ''lexicon'', ''liar'', ''library'', ''licks'', ''lids'', ''lied'', ''lifestyle'', ''light'',
   ''likewise'', ''lilac'', ''limits'', ''linen'', ''lion'', ''lipstick'', ''liquid'', ''listen'',
   ''lively'', ''loaded'', ''lobster'', ''locker'', ''lodge'', ''lofty'', ''logic'', ''loincloth'',
   ''long'', ''looking'', ''lopped'', ''lordship'', ''losing'', ''lottery'', ''loudly'', ''love'',
   ''lower'', ''loyal'', ''lucky'', ''luggage'', ''lukewarm'', ''lullaby'', ''lumber'', ''lunar'',
   ''lurk'', ''lush'', ''luxury'', ''lymph'', ''lynx'', ''lyrics'', ''macro'', ''madness'',
   ''magically'', ''mailed'', ''major'', ''makeup'', ''malady'', ''mammal'', ''maps'', ''masterful'',
   ''match'', ''maul'', ''maverick'', ''maximum'', ''mayor'', ''maze'', ''meant'', ''mechanic'',
   ''medicate'', ''meeting'', ''megabyte'', ''melting'', ''memoir'', ''menu'', ''merger'', ''mesh'',
   ''metro'', ''mews'', ''mice'', ''midst'', ''mighty'', ''mime'', ''mirror'', ''misery'',
   ''mittens'', ''mixture'', ''moat'', ''mobile'', ''mocked'', ''mohawk'', ''moisture'', ''molten'',
   ''moment'', ''money'', ''moon'', ''mops'', ''morsel'', ''mostly'', ''motherly'', ''mouth'',
   ''movement'', ''mowing'', ''much'', ''muddy'', ''muffin'', ''mugged'', ''mullet'', ''mumble'',
   ''mundane'', ''muppet'', ''mural'', ''musical'', ''muzzle'', ''myriad'', ''mystery'', ''myth'',
   ''nabbing'', ''nagged'', ''nail'', ''names'', ''nanny'', ''napkin'', ''narrate'', ''nasty'',
   ''natural'', ''nautical'', ''navy'', ''nearby'', ''necklace'', ''needed'', ''negative'', ''neither'',
   ''neon'', ''nephew'', ''nerves'', ''nestle'', ''network'', ''neutral'', ''never'', ''newt'',
   ''nexus'', ''nibs'', ''niche'', ''niece'', ''nifty'', ''nightly'', ''nimbly'', ''nineteen'',
   ''nirvana'', ''nitrogen'', ''nobody'', ''nocturnal'', ''nodes'', ''noises'', ''nomad'', ''noodles'',
   ''northern'', ''nostril'', ''noted'', ''nouns'', ''novelty'', ''nowhere'', ''nozzle'', ''nuance'',
   ''nucleus'', ''nudged'', ''nugget'', ''nuisance'', ''null'', ''number'', ''nuns'', ''nurse'',
   ''nutshell'', ''nylon'', ''oaks'', ''oars'', ''oasis'', ''oatmeal'', ''obedient'', ''object'',
   ''obliged'', ''obnoxious'', ''observant'', ''obtains'', ''obvious'', ''occur'', ''ocean'', ''october'',
   ''odds'', ''odometer'', ''offend'', ''often'', ''oilfield'', ''ointment'', ''okay'', ''older'',
   ''olive'', ''olympics'', ''omega'', ''omission'', ''omnibus'', ''onboard'', ''oncoming'', ''oneself'',
   ''ongoing'', ''onion'', ''online'', ''onslaught'', ''onto'', ''onward'', ''oozed'', ''opacity'',
   ''opened'', ''opposite'', ''optical'', ''opus'', ''orange'', ''orbit'', ''orchid'', ''orders'',
   ''organs'', ''origin'', ''ornament'', ''orphans'', ''oscar'', ''ostrich'', ''otherwise'', ''otter'',
   ''ouch'', ''ought'', ''ounce'', ''ourselves'', ''oust'', ''outbreak'', ''oval'', ''oven'',
   ''owed'', ''owls'', ''owner'', ''oxidant'', ''oxygen'', ''oyster'', ''ozone'', ''pact'',
   ''paddles'', ''pager'', ''pairing'', ''palace'', ''pamphlet'', ''pancakes'', ''paper'', ''paradise'',
   ''pastry'', ''patio'', ''pause'', ''pavements'', ''pawnshop'', ''payment'', ''peaches'', ''pebbles'',
   ''peculiar'', ''pedantic'', ''peeled'', ''pegs'', ''pelican'', ''pencil'', ''people'', ''pepper'',
   ''perfect'', ''pests'', ''petals'', ''phase'', ''pheasants'', ''phone'', ''phrases'', ''physics'',
   ''piano'', ''picked'', ''pierce'', ''pigment'', ''piloted'', ''pimple'', ''pinched'', ''pioneer'',
   ''pipeline'', ''pirate'', ''pistons'', ''pitched'', ''pivot'', ''pixels'', ''pizza'', ''playful'',
   ''pledge'', ''pliers'', ''plotting'', ''plus'', ''plywood'', ''poaching'', ''pockets'', ''podcast'',
   ''poetry'', ''point'', ''poker'', ''polar'', ''ponies'', ''pool'', ''popular'', ''portents'',
   ''possible'', ''potato'', ''pouch'', ''poverty'', ''powder'', ''pram'', ''present'', ''pride'',
   ''problems'', ''pruned'', ''prying'', ''psychic'', ''public'', ''puck'', ''puddle'', ''puffin'',
   ''pulp'', ''pumpkins'', ''punch'', ''puppy'', ''purged'', ''push'', ''putty'', ''puzzled'',
   ''pylons'', ''pyramid'', ''python'', ''queen'', ''quick'', ''quote'', ''rabbits'', ''racetrack'',
   ''radar'', ''rafts'', ''rage'', ''railway'', ''raking'', ''rally'', ''ramped'', ''randomly'',
   ''rapid'', ''rarest'', ''rash'', ''rated'', ''ravine'', ''rays'', ''razor'', ''react'',
   ''rebel'', ''recipe'', ''reduce'', ''reef'', ''refer'', ''regular'', ''reheat'', ''reinvest'',
   ''rejoices'', ''rekindle'', ''relic'', ''remedy'', ''renting'', ''reorder'', ''repent'', ''request'',
   ''reruns'', ''rest'', ''return'', ''reunion'', ''revamp'', ''rewind'', ''rhino'', ''rhythm'',
   ''ribbon'', ''richly'', ''ridges'', ''rift'', ''rigid'', ''rims'', ''ringing'', ''riots'',
   ''ripped'', ''rising'', ''ritual'', ''river'', ''roared'', ''robot'', ''rockets'', ''rodent'',
   ''rogue'', ''roles'', ''romance'', ''roomy'', ''roped'', ''roster'', ''rotate'', ''rounded'',
   ''rover'', ''rowboat'', ''royal'', ''ruby'', ''rudely'', ''ruffled'', ''rugged'', ''ruined'',
   ''ruling'', ''rumble'', ''runway'', ''rural'', ''rustled'', ''ruthless'', ''sabotage'', ''sack'',
   ''sadness'', ''safety'', ''saga'', ''sailor'', ''sake'', ''salads'', ''sample'', ''sanity'',
   ''sapling'', ''sarcasm'', ''sash'', ''satin'', ''saucepan'', ''saved'', ''sawmill'', ''saxophone'',
   ''sayings'', ''scamper'', ''scenic'', ''school'', ''science'', ''scoop'', ''scrub'', ''scuba'',
   ''seasons'', ''second'', ''sedan'', ''seeded'', ''segments'', ''seismic'', ''selfish'', ''semifinal'',
   ''sensible'', ''september'', ''sequence'', ''serving'', ''session'', ''setup'', ''seventh'', ''sewage'',
   ''shackles'', ''shelter'', ''shipped'', ''shocking'', ''shrugged'', ''shuffled'', ''shyness'', ''siblings'',
   ''sickness'', ''sidekick'', ''sieve'', ''sifting'', ''sighting'', ''silk'', ''simplest'', ''sincerely'',
   ''sipped'', ''siren'', ''situated'', ''sixteen'', ''sizes'', ''skater'', ''skew'', ''skirting'',
   ''skulls'', ''skydive'', ''slackens'', ''sleepless'', ''slid'', ''slower'', ''slug'', ''smash'',
   ''smelting'', ''smidgen'', ''smog'', ''smuggled'', ''snake'', ''sneeze'', ''sniff'', ''snout'',
   ''snug'', ''soapy'', ''sober'', ''soccer'', ''soda'', ''software'', ''soggy'', ''soil'',
   ''solved'', ''somewhere'', ''sonic'', ''soothe'', ''soprano'', ''sorry'', ''southern'', ''sovereign'',
   ''sowed'', ''soya'', ''space'', ''speedy'', ''sphere'', ''spiders'', ''splendid'', ''spout'',
   ''sprig'', ''spud'', ''spying'', ''square'', ''stacking'', ''stellar'', ''stick'', ''stockpile'',
   ''strained'', ''stunning'', ''stylishly'', ''subtly'', ''succeed'', ''suddenly'', ''suede'', ''suffice'',
   ''sugar'', ''suitcase'', ''sulking'', ''summon'', ''sunken'', ''superior'', ''surfer'', ''sushi'',
   ''suture'', ''swagger'', ''swept'', ''swiftly'', ''sword'', ''swung'', ''syllabus'', ''symptoms'',
   ''syndrome'', ''syringe'', ''system'', ''taboo'', ''tacit'', ''tadpoles'', ''tagged'', ''tail'',
   ''taken'', ''talent'', ''tamper'', ''tanks'', ''tapestry'', ''tarnished'', ''tasked'', ''tattoo'',
   ''taunts'', ''tavern'', ''tawny'', ''taxi'', ''teardrop'', ''technical'', ''tedious'', ''teeming'',
   ''tell'', ''template'', ''tender'', ''tepid'', ''tequila'', ''terminal'', ''testing'', ''tether'',
   ''textbook'', ''thaw'', ''theatrics'', ''thirsty'', ''thorn'', ''threaten'', ''thumbs'', ''thwart'',
   ''ticket'', ''tidy'', ''tiers'', ''tiger'', ''tilt'', ''timber'', ''tinted'', ''tipsy'',
   ''tirade'', ''tissue'', ''titans'', ''toaster'', ''tobacco'', ''today'', ''toenail'', ''toffee'',
   ''together'', ''toilet'', ''token'', ''tolerant'', ''tomorrow'', ''tonic'', ''toolbox'', ''topic'',
   ''torch'', ''tossed'', ''total'', ''touchy'', ''towel'', ''toxic'', ''toyed'', ''trash'',
   ''trendy'', ''tribal'', ''trolling'', ''truth'', ''trying'', ''tsunami'', ''tubes'', ''tucks'',
   ''tudor'', ''tuesday'', ''tufts'', ''tugs'', ''tuition'', ''tulips'', ''tumbling'', ''tunnel'',
   ''turnip'', ''tusks'', ''tutor'', ''tuxedo'', ''twang'', ''tweezers'', ''twice'', ''twofold'',
   ''tycoon'', ''typist'', ''tyrant'', ''ugly'', ''ulcers'', ''ultimate'', ''umbrella'', ''umpire'',
   ''unafraid'', ''unbending'', ''uncle'', ''under'', ''uneven'', ''unfit'', ''ungainly'', ''unhappy'',
   ''union'', ''unjustly'', ''unknown'', ''unlikely'', ''unmask'', ''unnoticed'', ''unopened'', ''unplugs'',
   ''unquoted'', ''unrest'', ''unsafe'', ''until'', ''unusual'', ''unveil'', ''unwind'', ''unzip'',
   ''upbeat'', ''upcoming'', ''update'', ''upgrade'', ''uphill'', ''upkeep'', ''upload'', ''upon'',
   ''upper'', ''upright'', ''upstairs'', ''uptight'', ''upwards'', ''urban'', ''urchins'', ''urgent'',
   ''usage'', ''useful'', ''usher'', ''using'', ''usual'', ''utensils'', ''utility'', ''utmost'',
   ''utopia'', ''uttered'', ''vacation'', ''vague'', ''vain'', ''value'', ''vampire'', ''vane'',
   ''vapidly'', ''vary'', ''vastness'', ''vats'', ''vaults'', ''vector'', ''veered'', ''vegan'',
   ''vehicle'', ''vein'', ''velvet'', ''venomous'', ''verification'', ''vessel'', ''veteran'', ''vexed'',
   ''vials'', ''vibrate'', ''victim'', ''video'', ''viewpoint'', ''vigilant'', ''viking'', ''village'',
   ''vinegar'', ''violin'', ''vipers'', ''virtual'', ''visited'', ''vitals'', ''vivid'', ''vixen'',
   ''vocal'', ''vogue'', ''voice'', ''volcano'', ''vortex'', ''voted'', ''voucher'', ''vowels'',
   ''voyage'', ''vulture'', ''wade'', ''waffle'', ''wagtail'', ''waist'', ''waking'', ''wallets'',
   ''wanted'', ''warped'', ''washing'', ''water'', ''waveform'', ''waxing'', ''wayside'', ''weavers'',
   ''website'', ''wedge'', ''weekday'', ''weird'', ''welders'', ''went'', ''wept'', ''were'',
   ''western'', ''wetsuit'', ''whale'', ''when'', ''whipped'', ''whole'', ''wickets'', ''width'',
   ''wield'', ''wife'', ''wiggle'', ''wildly'', ''winter'', ''wipeout'', ''wiring'', ''wise'',
   ''withdrawn'', ''wives'', ''wizard'', ''wobbly'', ''woes'', ''woken'', ''wolf'', ''womanly'',
   ''wonders'', ''woozy'', ''worry'', ''wounded'', ''woven'', ''wrap'', ''wrist'', ''wrong'',
   ''yacht'', ''yahoo'', ''yanks'', ''yard'', ''yawning'', ''yearbook'', ''yellow'', ''yesterday'',
   ''yeti'', ''yields'', ''yodel'', ''yoga'', ''younger'', ''yoyo'', ''zapped'', ''zeal'',
   ''zebra'', ''zero'', ''zesty'', ''zigzags'', ''zinger'', ''zippers'', ''zodiac'', ''zombie'',
   ''zones'', ''zoom'']"

text \<open>
  A word that survives \<open>join(' ')\<close> followed by \<open>trim\<close> and \<open>split\<close>: not empty and
  free of white space. A word is plain when it is not empty and each of its characters
  has a code from 64 to 127.
\<close>

definition good_word :: "string \<Rightarrow> bool" where
  "good_word w = (w \<noteq> [] \<and> list_all (\<lambda>c. \<not> is_space c) w)"

definition plain :: "string \<Rightarrow> bool" where
  "plain w = (w \<noteq> [] \<and> list_all (\<lambda>c. digit6 c \<and> \<not> digit7 c) w)"

text \<open>
  \<^verbatim>\<open>
  function getWordIndex(word: string): number {
    const index = WORDLIST.indexOf(word);
    if (index === -1) {
      throw new Error(`Word not found in wordlist: ${word}`);
    }
    return index;
  }
  \<close>
\<close>

definition getWordIndex :: "string \<Rightarrow> error + int" where
  "getWordIndex word =
     (let index = indexOf WORDLIST word
      in if index = -1 then Inl (UnknownWord word) else Inr index)"


section \<open>Mnemonic functions\<close>

text \<open>\<open>a % b\<close> on integers: the remainder has the sign of the dividend.\<close>

definition js_rem :: "int \<Rightarrow> int \<Rightarrow> int" where
  "js_rem a b = sgn a * (\<bar>a\<bar> mod \<bar>b\<bar>)"

text \<open>\<open>a[i]\<close> on an array whose elements may be \<open>undefined\<close>.\<close>

definition arr_get :: "'a option list \<Rightarrow> nat \<Rightarrow> 'a option" where
  "arr_get a i = (if i < length a then a ! i else None)"

text \<open>
  \<open>view.setUint32(0, val, true)\<close> followed by the four \<open>view.getUint8(j)\<close>: the
  value modulo \<open>2^32\<close>, least-significant byte first.
\<close>

definition uint32_le_bytes :: "int \<Rightarrow> byte list" where
  "uint32_le_bytes val = map (\<lambda>j. word_of_int (ToUint32 val div 256 ^ j)) [0..<4]"

text \<open>
  \<open>new DataView(bytes.buffer, i, 4).getUint32(0, true)\<close>: a RangeError when the four
  bytes are not inside the buffer.
\<close>

definition getUint32_le :: "byte list \<Rightarrow> nat \<Rightarrow> error + nat" where
  "getUint32_le bytes i =
     (if i + 4 > length bytes then Inl RangeError
      else Inr (unat (bytes ! i) + 256 * unat (bytes ! (i + 1))
                + 65536 * unat (bytes ! (i + 2)) + 16777216 * unat (bytes ! (i + 3))))"

text \<open>
  The body of the loop of \<open>mnemonicToPrivateKey\<close>, for one group of three words:
  \<^verbatim>\<open>
    const w1 = getWordIndex(dataWords[i]);
    const w2 = getWordIndex(dataWords[i + 1]);
    const w3 = getWordIndex(dataWords[i + 2]);
    const wlLen = 1626;
    const val = w1 + wlLen * (((wlLen - w1) + w2) % wlLen) +
                wlLen * wlLen * (((wlLen - w2) + w3) % wlLen);
    if (val % wlLen !== w1) {
      throw new Error('Invalid mnemonic encoding');
    }
    const view = new DataView(new ArrayBuffer(4));
    view.setUint32(0, val, true);
    for (let j = 0; j < 4; j++) {
      privateKeyBytes.push(view.getUint8(j));
    }
  \<close>
  All the numbers are integers below \<open>2^53\<close>, so the arithmetic is exact.
\<close>

definition decode_group :: "string \<Rightarrow> string \<Rightarrow> string \<Rightarrow> error + byte list" where
  "decode_group s1 s2 s3 =
     bind (getWordIndex s1) (\<lambda>w1.
     bind (getWordIndex s2) (\<lambda>w2.
     bind (getWordIndex s3) (\<lambda>w3.
       let wlLen = 1626;
           val = w1 + wlLen * js_rem ((wlLen - w1) + w2) wlLen
                 + wlLen * wlLen * js_rem ((wlLen - w2) + w3) wlLen
       in if js_rem val wlLen \<noteq> w1 then Inl EncodingError
          else Inr (uint32_le_bytes val))))"

fun mnemonic_loop :: "string list \<Rightarrow> nat list \<Rightarrow> byte list \<Rightarrow> error + byte list" where
  "mnemonic_loop dataWords [] privateKeyBytes = Inr privateKeyBytes"
| "mnemonic_loop dataWords (i # rest) privateKeyBytes =
     bind (decode_group (dataWords ! i) (dataWords ! (i + 1)) (dataWords ! (i + 2)))
       (\<lambda>bs. mnemonic_loop dataWords rest (privateKeyBytes @ bs))"

text \<open>
  \<^verbatim>\<open>
  function mnemonicToPrivateKey(mnemonic: string): Uint8Array {
    const words = mnemonic.trim().split(/\s+/);
    if (words.length !== 25) {
      throw new Error('Mnemonic must have exactly 25 words');
    }
    const dataWords = words.slice(0, 24);
    const privateKeyBytes: number[] = [];
    for (let i = 0; i < 24; i += 3) { ... }
    return new Uint8Array(privateKeyBytes);
  }
  \<close>
  The loop runs for \<open>i = 0, 3, \<dots>, 21\<close>; \<open>dataWords\<close> has 24 elements there, so
  every \<open>dataWords[i]\<close> is inside the array.
\<close>

definition mnemonicToPrivateKey :: "string \<Rightarrow> error + byte list" where
  "mnemonicToPrivateKey mnemonic =
     (let words = split_ws (trim mnemonic)
      in if length words \<noteq> 25 then Inl InvalidLength
         else mnemonic_loop (slice words 0 24) (map (\<lambda>k. 3 * k) [0..<8]) [])"

text \<open>
  \<^verbatim>\<open>
  function calculateChecksumWord(words: string[]): string {
    let trimmed = '';
    for (const word of words) {
      trimmed += word.substr(0, 3);
    }
    const hash = crc32(trimmed);
    const checksumIndex = hash % 24;
    return words[checksumIndex];
  }
  \<close>
  An \<open>undefined\<close> element makes \<open>word.substr\<close> a TypeError; the result is
  \<open>undefined\<close> when \<open>checksumIndex\<close> is beyond the array.
\<close>

definition calculateChecksumWord :: "string option list \<Rightarrow> error + string option" where
  "calculateChecksumWord words =
     (if None \<in> set words then Inl TypeError
      else let trimmed = concat (map (\<lambda>word. take 3 (the word)) words);
               hash = crc32 trimmed;
               checksumIndex = hash mod 24
           in Inr (arr_get words checksumIndex))"

text \<open>
  The body of the loop of \<open>privateKeyToMnemonic\<close>, for the value of one group:
  \<^verbatim>\<open>
    const w1 = val % wlLen;
    const w2 = ((Math.floor(val / wlLen) + w1) % wlLen);
    const w3 = ((Math.floor(Math.floor(val / wlLen) / wlLen) + w2) % wlLen);
    words.push(WORDLIST[w1]);
    words.push(WORDLIST[w2]);
    words.push(WORDLIST[w3]);
  \<close>
  \<open>val\<close> is an integer below \<open>2^32\<close>, so \<open>Math.floor(val / wlLen)\<close> is the integer
  quotient.
\<close>

definition encode_group :: "nat \<Rightarrow> string option list" where
  "encode_group val =
     (let wlLen = 1626;
          w1 = val mod wlLen;
          w2 = (val div wlLen + w1) mod wlLen;
          w3 = (val div wlLen div wlLen + w2) mod wlLen
      in [arr_get (map Some WORDLIST) w1, arr_get (map Some WORDLIST) w2,
          arr_get (map Some WORDLIST) w3])"

fun words_loop :: "byte list \<Rightarrow> nat list \<Rightarrow> string option list \<Rightarrow> error + string option list" where
  "words_loop privateKeyBytes [] words = Inr words"
| "words_loop privateKeyBytes (i # rest) words =
     bind (getUint32_le privateKeyBytes i)
       (\<lambda>val. words_loop privateKeyBytes rest (words @ encode_group val))"

text \<open>
  \<^verbatim>\<open>
  function privateKeyToMnemonic(privateKeyBytes: Uint8Array): string {
    const words: string[] = [];
    const wlLen = 1626;
    for (let i = 0; i < 32; i += 4) {
      const view = new DataView(privateKeyBytes.buffer, i, 4);
      const val = view.getUint32(0, true);
      ...
    }
    const checksumWord = calculateChecksumWord(words);
    words.push(checksumWord);
    return words.join(' ');
  }
  \<close>
\<close>

definition privateKeyToMnemonic :: "byte list \<Rightarrow> error + string" where
  "privateKeyToMnemonic privateKeyBytes =
     bind (words_loop privateKeyBytes (map (\<lambda>k. 4 * k) [0..<8]) []) (\<lambda>words.
     bind (calculateChecksumWord words) (\<lambda>checksumWord.
       Inr (join '' '' (words @ [checksumWord]))))"

text \<open>
  \<^verbatim>\<open>
  function verifyMnemonicChecksum(mnemonic: string): boolean {
    const words = mnemonic.trim().split(/\s+/);
    if (words.length !== 25) {
      return false;
    }
    const dataWords = words.slice(0, 24);
    const expectedChecksum = calculateChecksumWord(dataWords);
    const actualChecksum = words[24];
    return expectedChecksum === actualChecksum;
  }
  \<close>
\<close>

definition verifyMnemonicChecksum :: "string \<Rightarrow> error + bool" where
  "verifyMnemonicChecksum mnemonic =
     (let words = split_ws (trim mnemonic)
      in if length words \<noteq> 25 then Inr False
         else bind (calculateChecksumWord (map Some (slice words 0 24)))
                (\<lambda>expectedChecksum. Inr (expectedChecksum = arr_get (map Some words) 24)))"


text \<open>
  The specification's wording of the mnemonic, to compare the code with. The value of the
  group of four bytes at \<open>i\<close>, least-significant byte first:
\<close>

definition le32 :: "byte list \<Rightarrow> nat \<Rightarrow> nat" where
  "le32 bs i = unat (bs ! i) + 256 * unat (bs ! (i + 1))
               + 65536 * unat (bs ! (i + 2)) + 16777216 * unat (bs ! (i + 3))"

text \<open>
  The three words of a group: \<open>w1 = val mod 1626\<close>,
  \<open>w2 = (floor(val / 1626) + w1) mod 1626\<close>,
  \<open>w3 = (floor(val / 1626^2) + w2) mod 1626\<close>.
\<close>

definition group_words :: "nat \<Rightarrow> string list" where
  "group_words val =
     [WORDLIST ! (val mod 1626),
      WORDLIST ! ((val div 1626 + val mod 1626) mod 1626),
      WORDLIST ! ((val div 1626 div 1626 + (val div 1626 + val mod 1626) mod 1626) mod 1626)]"

text \<open>The 24 data words of a seed: the words of its 8 groups, in order.\<close>

definition seed_words :: "byte list \<Rightarrow> string list" where
  "seed_words seed = concat (map (\<lambda>k. group_words (le32 seed (4 * k))) [0..<8])"

text \<open>
  The checksum word of 24 data words: the word at the position that the CRC-32 of the
  first three characters of every word gives, modulo 24.
\<close>

definition checksum_word :: "string list \<Rightarrow> string" where
  "checksum_word ws = ws ! (crc32 (concat (map (take 3) ws)) mod 24)"

section \<open>Encoding functions\<close>

text \<open>
  \<^verbatim>\<open>
  function encodeVarint(num: number): Uint8Array {
    const bytes: number[] = [];
    while (num >= 0x80) {
      const byte = (num & 0x7f) | 0x80;
      bytes.push(byte);
      num >>>= 7;
    }
    bytes.push(num & 0xff);
    return new Uint8Array(bytes);
  }
  \<close>
  The argument is a \<open>number\<close> that holds an integer, of either sign and of any
  size: the comparison is on the number itself, the bit operations on its 32-bit
  conversions.
\<close>

function encodeVarint_loop :: "int \<Rightarrow> int list \<Rightarrow> int list" where
  "encodeVarint_loop num bytes =
     (if num \<ge> 0x80
      then encodeVarint_loop (js_ushr num 7) (bytes @ [js_or (js_and num 0x7f) 0x80])
      else bytes @ [js_and num 0xff])"
  by pat_completeness auto

lemma js_ushr_7: "js_ushr num 7 = (num mod 2 ^ 32) div 2 ^ 7"
  by (simp add: js_ushr_def ToUint32_def)

lemma js_ushr_7_less: "0x80 \<le> num \<Longrightarrow> js_ushr num 7 < num"
proof -
  assume h: "0x80 \<le> num"
  have "(num mod 2 ^ 32) div 2 ^ 7 \<le> num div 2 ^ 7"
    using h by (intro zdiv_mono1) (simp_all add: zmod_le_nonneg_dividend)
  also have "\<dots> < num" using h by simp
  finally show ?thesis by (simp only: js_ushr_7)
qed

lemma js_ushr_7_nonneg: "0 \<le> js_ushr num 7"
  by (simp add: js_ushr_7 pos_imp_zdiv_nonneg_iff)

termination encodeVarint_loop
  by (relation "measure (\<lambda>(num, bytes). nat num)")
     (use js_ushr_7_less js_ushr_7_nonneg in \<open>auto simp: nat_less_iff\<close>)

declare encodeVarint_loop.simps [simp del]

definition encodeVarint :: "int \<Rightarrow> byte list" where
  "encodeVarint num = Uint8Array_from (encodeVarint_loop num [])"

text \<open>
  The specification's wording of the encoding, to compare the code with: groups of 7
  bits, least-significant group first, the high bit set on every byte but the last.
\<close>

fun varint_spec :: "nat \<Rightarrow> byte list" where
  "varint_spec n =
     (if n < 128 then [of_nat n] else of_nat (n mod 128 + 128) # varint_spec (n div 128))"

declare varint_spec.simps [simp del]

text \<open>The number a varint holds: the low 7 bits of each byte, least-significant first.\<close>

fun varint_value :: "byte list \<Rightarrow> nat" where
  "varint_value [] = 0"
| "varint_value (b # bs) = unat b mod 128 + 128 * varint_value bs"

text \<open>
  \<^verbatim>\<open>
  function uint8BeToBigInt(buffer: Uint8Array, offset: number, size: number): bigint {
    if (size < 1 || size > 8) {
      throw new Error('Invalid size');
    }
    let num = 0n;
    for (let i = 0; i < size; i++) {
      num = num << 8n;
      num = num | BigInt(buffer[offset + i]);
    }
    return num;
  }
  \<close>
  \<open>BigInt(undefined)\<close> is a TypeError: a read beyond the buffer.
\<close>

definition uint8BeToBigInt :: "byte list \<Rightarrow> nat \<Rightarrow> nat \<Rightarrow> error + nat" where
  "uint8BeToBigInt buffer offset sz =
     (if sz < 1 \<or> sz > 8 then Inl InvalidSize
      else if offset + sz > length buffer then Inl TypeError
      else Inr (foldl (\<lambda>num i. push_bit 8 num OR unat (buffer ! (offset + i))) 0 [0..<sz]))"

text \<open>The number that a list of bytes holds, most-significant byte first.\<close>

fun be_value :: "byte list \<Rightarrow> nat" where
  "be_value [] = 0"
| "be_value (b # bs) = unat b * 256 ^ length bs + be_value bs"

definition BASE58_ALPHABET :: string where
  "BASE58_ALPHABET = ''123456789ABCDEFGHJKLMNPQRSTUVWXYZabcdefghijkmnopqrstuvwxyz''"

definition ENCODED_BLOCK_SIZES :: "nat list" where
  "ENCODED_BLOCK_SIZES = [0, 2, 3, 5, 6, 7, 9, 10, 11]"

definition FULL_BLOCK_SIZE :: nat where
  "FULL_BLOCK_SIZE = 8"

definition FULL_ENCODED_BLOCK_SIZE :: nat where
  "FULL_ENCODED_BLOCK_SIZE = 11"

text \<open>
  The inner loop of \<open>base58Encode\<close>, the same for a full and for the last block:
  \<^verbatim>\<open>
    while (num > 0n) {
      const remainder = num % 58n;
      num = num / 58n;
      result[resultStart + j] = BASE58_ALPHABET[Number(remainder)];
      j--;
    }
  \<close>
\<close>

function base58_digits :: "nat \<Rightarrow> int \<Rightarrow> nat \<Rightarrow> string list \<Rightarrow> string list" where
  "base58_digits num j resultStart result =
     (if num > 0
      then base58_digits (num div 58) (j - 1) resultStart
             (array_set result (int resultStart + j) (str_index BASE58_ALPHABET (num mod 58)))
      else result)"
  by pat_completeness auto
termination
  by (relation "measure (\<lambda>(num, j, resultStart, result). num)") auto

declare base58_digits.simps [simp del]

text \<open>The shape of \<open>result\<close>: every element is a string of one character.\<close>

definition one_char :: "string list \<Rightarrow> bool" where
  "one_char result = list_all (\<lambda>s. length s = 1) result"

text \<open>
  One block: \<open>uint8BeToBigInt\<close>, then the inner loop from
  \<open>j = ENCODED_BLOCK_SIZES[size] - 1\<close>.
\<close>

definition encode_block ::
  "byte list \<Rightarrow> nat \<Rightarrow> nat \<Rightarrow> nat \<Rightarrow> string list \<Rightarrow> error + string list" where
  "encode_block buffer blockStart sz resultStart result =
     bind (uint8BeToBigInt buffer blockStart sz) (\<lambda>num.
       Inr (base58_digits num (int (ENCODED_BLOCK_SIZES ! sz) - 1) resultStart result))"

fun full_blocks_loop :: "byte list \<Rightarrow> nat list \<Rightarrow> string list \<Rightarrow> error + string list" where
  "full_blocks_loop buffer [] result = Inr result"
| "full_blocks_loop buffer (i # rest) result =
     bind (encode_block buffer (i * FULL_BLOCK_SIZE) FULL_BLOCK_SIZE
             (i * FULL_ENCODED_BLOCK_SIZE) result)
       (\<lambda>result'. full_blocks_loop buffer rest result')"

text \<open>
  \<^verbatim>\<open>
  function base58Encode(buffer: Uint8Array): string {
    if (buffer.length === 0) {
      return '';
    }
    const fullBlockCount = Math.floor(buffer.length / FULL_BLOCK_SIZE);
    const lastBlockSize = buffer.length % FULL_BLOCK_SIZE;
    const resultSize = fullBlockCount * FULL_ENCODED_BLOCK_SIZE + ENCODED_BLOCK_SIZES[lastBlockSize];
    const result = new Array(resultSize).fill(BASE58_ALPHABET[0]);
    for (let i = 0; i < fullBlockCount; i++) { ... }
    if (lastBlockSize > 0) { ... }
    return result.join('');
  }
  \<close>
  \<open>result\<close> is an array of resultSize one-character strings; \<open>join('')\<close> concatenates
  them. \<open>lastBlockSize\<close> is below 8, inside \<open>ENCODED_BLOCK_SIZES\<close>.
\<close>

definition base58Encode :: "byte list \<Rightarrow> error + string" where
  "base58Encode buffer =
     (if length buffer = 0 then Inr []
      else
        let fullBlockCount = length buffer div FULL_BLOCK_SIZE;
            lastBlockSize = length buffer mod FULL_BLOCK_SIZE;
            resultSize = fullBlockCount * FULL_ENCODED_BLOCK_SIZE
                         + ENCODED_BLOCK_SIZES ! lastBlockSize;
            result = replicate resultSize (str_index BASE58_ALPHABET 0)
        in bind (full_blocks_loop buffer [0..<fullBlockCount] result) (\<lambda>result1.
           bind (if lastBlockSize > 0
                 then encode_block buffer (fullBlockCount * FULL_BLOCK_SIZE) lastBlockSize
                        (fullBlockCount * FULL_ENCODED_BLOCK_SIZE) result1
                 else Inr result1) (\<lambda>result2.
             Inr (concat result2))))"

text \<open>
  The specification's wording of the block encoding, to compare the code with. The
  Base58 digits of a number, most-significant first, none for 0:
\<close>

function base58_number :: "nat \<Rightarrow> string" where
  "base58_number n =
     (if n = 0 then [] else base58_number (n div 58) @ [BASE58_ALPHABET ! (n mod 58)])"
  by pat_completeness auto
termination
  by (relation "measure id") auto

declare base58_number.simps [simp del]

text \<open>
  The encoding of one block: the digits of the block read as a big-endian number, with the
  leading slots of its fixed width filled with the first symbol of the alphabet.
\<close>

definition block_spec :: "byte list \<Rightarrow> string" where
  "block_spec blk =
     (let ds = base58_number (be_value blk)
      in replicate (ENCODED_BLOCK_SIZES ! length blk - length ds) (BASE58_ALPHABET ! 0) @ ds)"

text \<open>The blocks of a buffer: 8 bytes each, the last one with what remains.\<close>

function blocks :: "byte list \<Rightarrow> byte list list" where
  "blocks bs = (if bs = [] then [] else take 8 bs # blocks (drop 8 bs))"
  by pat_completeness auto
termination
  by (relation "measure length") auto

declare blocks.simps [simp del]

text \<open>An element of \<open>result\<close>: a string of one character.\<close>

definition single :: "char \<Rightarrow> string" where
  "single c = [c]"

section \<open>Key generation\<close>

text \<open>
  The conversion loop that \<open>generateEd25519Keypair\<close> and \<open>generateWallet\<close> share:
  \<^verbatim>\<open>
    let scalarBigInt = 0n;
    for (let i = 0; i < 32; i++) {
      scalarBigInt |= BigInt(privateKeyBytes[i]) << (BigInt(i) * 8n);
    }
  \<close>
  An array shorter than 32 makes \<open>BigInt(undefined)\<close> a TypeError.
\<close>

definition bytesToScalar :: "byte list \<Rightarrow> error + nat" where
  "bytesToScalar privateKeyBytes =
     (if length privateKeyBytes < 32 then Inl TypeError
      else Inr (foldl (\<lambda>scalarBigInt i. scalarBigInt OR push_bit (i * 8) (unat (privateKeyBytes ! i)))
                  0 [0..<32]))"

text \<open>The number that a list of bytes holds, least-significant byte first.\<close>

fun le_value :: "byte list \<Rightarrow> nat" where
  "le_value [] = 0"
| "le_value (b # bs) = unat b + 256 * le_value bs"

definition curveOrder :: nat where
  "curveOrder = 0x1000000000000000000000000000000014def9dea2f79cd65812631a5cf5d3ed"

text \<open>
  The multiplication of the base point, \<open>Ed25519.Point.BASE.multiply(n).toBytes()\<close> of
  the library \<open>@noble/ed25519\<close>. The library takes a scalar \<open>n\<close> with
  \<open>1 <= n < L\<close> only, \<open>L\<close> the order of the base point (the number that the
  repository names \<open>curveOrder\<close>), and throws a \<open>RangeError\<close> on every other
  scalar, 0 included. For a scalar in the range it returns the point as its 32 bytes:
  \<open>base_multiply n\<close> stands for these bytes and is a parameter of the model, the
  arithmetic of the curve itself not being modelled.
\<close>

definition Point_BASE_multiply :: "(nat \<Rightarrow> byte list) \<Rightarrow> nat \<Rightarrow> error + byte list" where
  "Point_BASE_multiply base_multiply n =
     (if 1 \<le> n \<and> n < curveOrder then Inr (base_multiply n) else Inl RangeError)"

record Keypair =
  publicKeyBytes :: "byte list"
  privateKeyBytes :: "byte list"

text \<open>
  \<^verbatim>\<open>
  function generateEd25519Keypair(privateKeyBytes: Uint8Array, ensureValid = true) {
    let scalarBigInt = 0n;
    for (...) { ... }
    const curveOrder = 0x1000000000000000000000000000000014def9dea2f79cd65812631a5cf5d3edn;
    let scalarToUse = scalarBigInt;
    if (ensureValid && scalarBigInt >= curveOrder) {
      scalarToUse = scalarBigInt % curveOrder;
    }
    const point = Ed25519.Point.BASE.multiply(scalarToUse);
    const publicKeyBytes = point.toBytes();
    return {
      publicKey: new Uint8Array(publicKeyBytes),
      privateKey: new Uint8Array(privateKeyBytes)
    };
  }
  \<close>
  The curve arithmetic is the library \<open>@noble/ed25519\<close>, which is not part of the
  repository; \<open>Point_BASE_multiply\<close> below stands for
  \<open>Ed25519.Point.BASE.multiply(s).toBytes()\<close>.
\<close>

definition generateEd25519Keypair ::
  "(nat \<Rightarrow> byte list) \<Rightarrow> byte list \<Rightarrow> bool \<Rightarrow> error + Keypair" where
  "generateEd25519Keypair base_multiply keyBytes ensureValid =
     bind (bytesToScalar keyBytes) (\<lambda>scalarBigInt.
       let scalarToUse = (if ensureValid \<and> scalarBigInt \<ge> curveOrder
                          then scalarBigInt mod curveOrder else scalarBigInt)
       in bind (Point_BASE_multiply base_multiply scalarToUse) (\<lambda>pointBytes.
            Inr \<lparr>publicKeyBytes = pointBytes, privateKeyBytes = keyBytes\<rparr>))"

section \<open>Address generation\<close>

definition PREFIX :: int where
  "PREFIX = 0x198004"

text \<open>
  \<^verbatim>\<open>
  function publicKeyToAddress(publicKeyBytes: Uint8Array): string {
    const PREFIX = 0x198004;
    const prefixBytes = encodeVarint(PREFIX);
    const buffer = new Uint8Array(prefixBytes.length + publicKeyBytes.length);
    buffer.set(prefixBytes, 0);
    buffer.set(publicKeyBytes, prefixBytes.length);
    const hashHex = keccak256(buffer);
    const hashBytes = hexToBytes(hashHex);
    const checksum = hashBytes.slice(0, 4);
    const finalBuffer = new Uint8Array(buffer.length + 4);
    finalBuffer.set(buffer, 0);
    finalBuffer.set(checksum, buffer.length);
    return base58Encode(finalBuffer);
  }
  \<close>
  \<open>keccak256\<close> is the library \<open>js-sha3\<close>: a parameter of the model, from the bytes
  to the digest as a hexadecimal string.
\<close>

definition publicKeyToAddress :: "(byte list \<Rightarrow> string) \<Rightarrow> byte list \<Rightarrow> error + string" where
  "publicKeyToAddress keccak256 pubBytes =
     (let prefixBytes = encodeVarint PREFIX
      in bind (ua_set (replicate (length prefixBytes + length pubBytes) 0) prefixBytes 0) (\<lambda>buffer0.
         bind (ua_set buffer0 pubBytes (length prefixBytes)) (\<lambda>buffer.
           let hashHex = keccak256 buffer;
               hashBytes = hexToBytes hashHex;
               checksum = slice hashBytes 0 4
           in bind (ua_set (replicate (length buffer + 4) 0) buffer 0) (\<lambda>finalBuffer0.
              bind (ua_set finalBuffer0 checksum (length buffer)) (\<lambda>finalBuffer.
                base58Encode finalBuffer)))))"

section \<open>Address validation\<close>

text \<open>
  \<^verbatim>\<open>
  export const isValidWalletAddress = (address: string): boolean => {
    if (!address) return false;
    if (!address.startsWith('PAS')) return false;
    if (address.length < 50 || address.length > 100) return false;
    try {
      const decoded = bs58.decode(address);
      if (decoded.length < 38) return false;
      const prefix = decoded.slice(0, 2);
      const publicKey = decoded.slice(2, 34);
      const checksum = decoded.slice(34, 38);
      if (prefix[0] !== 0x19 || prefix[1] !== 0x80 || prefix[2] !== 0x04) return false;
      const addressWithoutChecksum = new Uint8Array(34);
      addressWithoutChecksum.set(prefix);
      addressWithoutChecksum.set(publicKey, 2);
      const hash = cn_fast_hash(addressWithoutChecksum);
      const expectedChecksum = hash.slice(0, 4);
      for (let i = 0; i < 4; i++) {
        if (checksum[i] !== expectedChecksum[i]) return false;
      }
      return true;
    } catch (error) {
      console.error('Address validation error:', error);
      return false;
    }
  };
  \<close>
  \<open>bs58.decode\<close> is the library \<open>bs58\<close> and throws on a string that is not Base58;
  \<open>cn_fast_hash\<close> is declared nowhere in the repository. Both are parameters of the
  model and may throw. Every error inside \<open>try\<close> gives \<open>false\<close>.
\<close>

definition isValidWalletAddress ::
  "(string \<Rightarrow> error + byte list) \<Rightarrow> (byte list \<Rightarrow> error + byte list) \<Rightarrow> string \<Rightarrow> bool" where
  "isValidWalletAddress bs58_decode cn_fast_hash addr =
     (if addr = [] then False
      else if take 3 addr \<noteq> ''PAS'' then False
      else if length addr < 50 \<or> length addr > 100 then False
      else
        (case
           bind (bs58_decode addr) (\<lambda>decoded.
             if length decoded < 38 then Inr False
             else
               let prefix = slice decoded 0 2;
                   pubKey = slice decoded 2 34;
                   checksum = slice decoded 34 38
               in if ua_get prefix 0 \<noteq> Some 0x19 \<or> ua_get prefix 1 \<noteq> Some 0x80
                     \<or> ua_get prefix 2 \<noteq> Some 0x04
                  then Inr False
                  else
                    bind (ua_set (replicate 34 0) prefix 0) (\<lambda>a0.
                    bind (ua_set a0 pubKey 2) (\<lambda>addressWithoutChecksum.
                    bind (cn_fast_hash addressWithoutChecksum) (\<lambda>hash.
                      let expectedChecksum = slice hash 0 4
                      in Inr (list_all (\<lambda>i. ua_get checksum i = ua_get expectedChecksum i)
                                [0..<4])))))
         of Inl e \<Rightarrow> False | Inr b \<Rightarrow> b))"

section \<open>Wallet generation functions\<close>

record WalletData =
  address :: string
  privateKey :: string
  publicKey :: string
  mnemonic :: string

text \<open>
  The loop of \<open>generateWallet\<close>:
  \<^verbatim>\<open>
    let attempts = 0;
    do {
      privateKeyBytes = await generateRandomBytes(32);
      scalarBigInt = 0n;
      for (let i = 0; i < 32; i++) {
        scalarBigInt |= BigInt(privateKeyBytes[i]) << (BigInt(i) * 8n);
      }
      attempts++;
    } while (scalarBigInt >= curveOrder && attempts < 1000);
  \<close>
  The random source is a parameter: \<open>random k\<close> is what the call number \<open>k\<close> of
  \<open>generateRandomBytes(32)\<close> gives, 32 bytes or the error it throws when no secure
  generator is available. The call number is the value of \<open>attempts\<close> before the call.
\<close>

text \<open>
  Draw number \<open>k\<close> is rejected by the loop: it gives 32 bytes whose scalar is not below
  the curve order.
\<close>

definition invalid_draw :: "(nat \<Rightarrow> error + byte list) \<Rightarrow> nat \<Rightarrow> bool" where
  "invalid_draw random k =
     (case random k of Inl e \<Rightarrow> False
      | Inr bs \<Rightarrow> (case bytesToScalar bs of Inl e \<Rightarrow> False | Inr s \<Rightarrow> curveOrder \<le> s))"

function generateWallet_loop ::
  "(nat \<Rightarrow> error + byte list) \<Rightarrow> nat \<Rightarrow> error + (byte list \<times> nat \<times> nat)" where
  "generateWallet_loop random attempts =
     bind (random attempts) (\<lambda>keyBytes.
     bind (bytesToScalar keyBytes) (\<lambda>scalarBigInt.
       if scalarBigInt \<ge> curveOrder \<and> attempts + 1 < 1000
       then generateWallet_loop random (attempts + 1)
       else Inr (keyBytes, scalarBigInt, attempts + 1)))"
  by pat_completeness auto
termination
  by (relation "measure (\<lambda>(random, attempts). 1000 - attempts)") auto

declare generateWallet_loop.simps [simp del]

text \<open>
  \<^verbatim>\<open>
  export async function generateWallet(): Promise<WalletData> {
    ...
    if (attempts >= 1000) {
      throw new Error('Failed to generate valid scalar after 1000 attempts');
    }
    const mnemonic = privateKeyToMnemonic(privateKeyBytes);
    const keypair = generateEd25519Keypair(privateKeyBytes);
    const address = publicKeyToAddress(keypair.publicKey);
    return {
      privateKey: bytesToHex(privateKeyBytes),
      publicKey: bytesToHex(keypair.publicKey),
      address: address,
      mnemonic: mnemonic
    };
  }
  \<close>
\<close>

definition generateWallet ::
  "(nat \<Rightarrow> error + byte list) \<Rightarrow> (nat \<Rightarrow> byte list) \<Rightarrow> (byte list \<Rightarrow> string)
     \<Rightarrow> error + WalletData" where
  "generateWallet random base_multiply keccak256 =
     bind (generateWallet_loop random 0) (\<lambda>(keyBytes, scalarBigInt, attempts).
       if attempts \<ge> 1000 then Inl EntropyExhausted
       else
         bind (privateKeyToMnemonic keyBytes) (\<lambda>phrase.
         bind (generateEd25519Keypair base_multiply keyBytes True) (\<lambda>keypair.
         bind (publicKeyToAddress keccak256 (publicKeyBytes keypair)) (\<lambda>addr.
           Inr \<lparr>address = addr,
                privateKey = bytesToHex keyBytes,
                publicKey = bytesToHex (publicKeyBytes keypair),
                mnemonic = phrase\<rparr>))))"

text \<open>
  \<^verbatim>\<open>
  export function importFromMnemonic(mnemonic: string): WalletData {
    if (!verifyMnemonicChecksum(mnemonic)) {
      throw new Error('Invalid mnemonic checksum');
    }
    const privateKeyBytes = mnemonicToPrivateKey(mnemonic);
    const keypair = generateEd25519Keypair(privateKeyBytes, false);
    const address = publicKeyToAddress(keypair.publicKey);
    return {
      privateKey: bytesToHex(privateKeyBytes),
      publicKey: bytesToHex(keypair.publicKey),
      address: address,
      mnemonic: mnemonic
    };
  }
  \<close>
\<close>

definition importFromMnemonic ::
  "(nat \<Rightarrow> byte list) \<Rightarrow> (byte list \<Rightarrow> string) \<Rightarrow> string \<Rightarrow> error + WalletData" where
  "importFromMnemonic base_multiply keccak256 phrase =
     bind (verifyMnemonicChecksum phrase) (\<lambda>ok.
       if \<not> ok then Inl InvalidChecksum
       else
         bind (mnemonicToPrivateKey phrase) (\<lambda>keyBytes.
         bind (generateEd25519Keypair base_multiply keyBytes False) (\<lambda>keypair.
         bind (publicKeyToAddress keccak256 (publicKeyBytes keypair)) (\<lambda>addr.
           Inr \<lparr>address = addr,
                privateKey = bytesToHex keyBytes,
                publicKey = bytesToHex (publicKeyBytes keypair),
                mnemonic = phrase\<rparr>))))"

text \<open>
  \<^verbatim>\<open>
  export function importFromPrivateKey(privateKeyHex: string): WalletData {
    const privateKeyBytes = hexToBytes(privateKeyHex);
    const keypair = generateEd25519Keypair(privateKeyBytes, false);
    const address = publicKeyToAddress(keypair.publicKey);
    const mnemonic = privateKeyToMnemonic(privateKeyBytes);
    return {
      privateKey: privateKeyHex,
      publicKey: bytesToHex(keypair.publicKey),
      address: address,
      mnemonic: mnemonic
    };
  }
  \<close>
\<close>

definition importFromPrivateKey ::
  "(nat \<Rightarrow> byte list) \<Rightarrow> (byte list \<Rightarrow> string) \<Rightarrow> string \<Rightarrow> error + WalletData" where
  "importFromPrivateKey base_multiply keccak256 privateKeyHex =
     (let keyBytes = hexToBytes privateKeyHex
      in bind (generateEd25519Keypair base_multiply keyBytes False) (\<lambda>keypair.
         bind (publicKeyToAddress keccak256 (publicKeyBytes keypair)) (\<lambda>addr.
         bind (privateKeyToMnemonic keyBytes) (\<lambda>phrase.
           Inr \<lparr>address = addr,
                privateKey = privateKeyHex,
                publicKey = bytesToHex (publicKeyBytes keypair),
                mnemonic = phrase\<rparr>))))"

section \<open>Facts about the model\<close>

subsection \<open>The 32-bit operators and the varint\<close>

lemma bind_Inr [simp]: "bind (Inr v) f = f v"
  by (simp add: bind_def)

lemma bind_Inl [simp]: "bind (Inl e) f = Inl e"
  by (simp add: bind_def)

lemma shift_mod_half:
  fixes u h :: int
  assumes "0 \<le> u" "u < 2 * h"
  shows "(u + h) mod (2 * h) - h = (if h \<le> u then u - 2 * h else u)"
proof (cases "h \<le> u")
  case True
  have "(u + h) mod (2 * h) = (u - h + 2 * h) mod (2 * h)" by (simp add: algebra_simps)
  also have "\<dots> = (u - h) mod (2 * h)" by (rule mod_add_self2)
  also have "\<dots> = u - h" using True assms by (intro mod_pos_pos_trivial) simp_all
  finally show ?thesis using True by simp
next
  case False
  then have "(u + h) mod (2 * h) = u + h" using assms by (intro mod_pos_pos_trivial) simp_all
  then show ?thesis using False by simp
qed

lemma ToInt32_signed_take_bit: "ToInt32 a = signed_take_bit 31 a"
proof -
  define u where "u = a mod 2 ^ 32"
  have u: "0 \<le> u" "u < 2 * 2 ^ 31" by (simp_all add: u_def)
  have "signed_take_bit 31 a = (a + 2 ^ 31) mod (2 * 2 ^ 31) - 2 ^ 31"
    by (simp add: signed_take_bit_eq_take_bit_shift take_bit_eq_mod)
  also have "(a + 2 ^ 31) mod (2 * 2 ^ 31) = (u + 2 ^ 31) mod (2 * 2 ^ 31)"
    unfolding u_def by (simp add: mod_add_left_eq)
  finally have "signed_take_bit 31 a = (if 2 ^ 31 \<le> u then u - 2 * 2 ^ 31 else u)"
    using shift_mod_half [OF u] by simp
  then show ?thesis by (simp add: ToInt32_def Let_def u_def)
qed

lemma ToInt32_small: "- (2 ^ 31) \<le> a \<Longrightarrow> a < 2 ^ 31 \<Longrightarrow> ToInt32 a = a"
  by (simp add: ToInt32_signed_take_bit signed_take_bit_int_eq_self)

lemma js_and_mask: "n \<le> 31 \<Longrightarrow> js_and num (2 ^ n - 1) = num mod 2 ^ n"
proof -
  assume n: "n \<le> 31"
  have "(2::int) ^ n \<le> 2 ^ 31" using n by (intro power_increasing) simp_all
  moreover have "(0::int) < 2 ^ n" by simp
  ultimately have "ToInt32 (2 ^ n - 1) = 2 ^ n - 1"
    by (intro ToInt32_small) linarith+
  then have "js_and num (2 ^ n - 1) = signed_take_bit 31 num AND mask n"
    by (simp add: js_and_def ToInt32_signed_take_bit mask_eq_exp_minus_1)
  also have "\<dots> = take_bit n (signed_take_bit 31 num)"
    by (simp add: take_bit_eq_mask)
  also have "\<dots> = take_bit n num"
    using n by (simp add: take_bit_signed_take_bit)
  finally show ?thesis by (simp add: take_bit_eq_mod)
qed

lemma js_and_7f: "js_and num 0x7f = num mod 128"
  using js_and_mask [of 7 num] by simp

lemma js_and_ff: "js_and num 0xff = num mod 256"
  using js_and_mask [of 8 num] by simp

lemma js_or_80: "js_or (num mod 128) 0x80 = num mod 128 + 128"
proof -
  have "ToInt32 (num mod 128) = num mod 128"
    by (rule ToInt32_small) (simp_all add: order_trans [of _ 0] less_trans [of _ 128])
  moreover have "ToInt32 128 = 128" by (simp add: ToInt32_def)
  ultimately have "js_or (num mod 128) 0x80 = take_bit 7 num OR push_bit 7 1"
    by (simp add: js_or_def take_bit_eq_mod)
  also have "\<dots> = take_bit 7 num + push_bit 7 1"
    by (simp only: concat_bit_def [symmetric] concat_bit_eq)
  finally show ?thesis by (simp add: take_bit_eq_mod)
qed

lemma encodeVarint_loop_spec:
  "0 \<le> num \<Longrightarrow> num < 2 ^ 32 \<Longrightarrow>
   Uint8Array_from (encodeVarint_loop num bytes) = Uint8Array_from bytes @ varint_spec (nat num)"
proof (induction num bytes rule: encodeVarint_loop.induct)
  case (1 num bytes)
  show ?case
  proof (cases "0x80 \<le> num")
    case True
    have sh: "js_ushr num 7 = num div 128"
      using 1(2,3) by (simp add: js_ushr_7)
    have "num div 128 < num" using True by (intro int_div_less_self) simp_all
    then have r: "0 \<le> num div 128" "num div 128 < 2 ^ 32"
      using 1(2,3) by (simp_all add: pos_imp_zdiv_nonneg_iff)
    have "Uint8Array_from (encodeVarint_loop num bytes) =
          Uint8Array_from (bytes @ [num mod 128 + 128]) @ varint_spec (nat (num div 128))"
      using 1(1) [OF True] r True
      by (subst encodeVarint_loop.simps) (simp add: sh js_and_7f js_or_80)
    moreover have "varint_spec (nat num) =
          of_nat (nat num mod 128 + 128) # varint_spec (nat num div 128)"
      using True by (subst varint_spec.simps) simp
    moreover have "(word_of_int (num mod 128 + 128) :: byte) = of_nat (nat num mod 128 + 128)"
    proof -
      obtain m where m: "num = int m" using 1(2) by (metis int_nat_eq)
      have "int m mod 128 = int (m mod 128)" by (simp add: zmod_int)
      then show ?thesis unfolding m by simp
    qed
    moreover have "nat (num div 128) = nat num div 128"
      using 1(2) by (simp add: nat_div_distrib)
    ultimately show ?thesis by (simp add: Uint8Array_from_def)
  next
    case False
    have "(word_of_int (num mod 256) :: byte) = of_nat (nat num)"
      using 1(2) False by simp
    moreover have "nat num < 128" using False 1(2) by simp
    then have "varint_spec (nat num) = [of_nat (nat num)]"
      by (subst varint_spec.simps) simp
    moreover have "encodeVarint_loop num bytes = bytes @ [num mod 256]"
      using False by (subst encodeVarint_loop.simps) (simp add: js_and_ff)
    ultimately show ?thesis by (simp add: Uint8Array_from_def)
  qed
qed


lemma encodeVarint_small: "num < 0x80 \<Longrightarrow> encodeVarint num = [word_of_int num]"
proof -
  assume "num < 0x80"
  then have "encodeVarint_loop num [] = [num mod 256]"
    by (subst encodeVarint_loop.simps) (simp add: js_and_ff)
  moreover have "(word_of_int (num mod 256) :: byte) = word_of_int num"
    by (simp add: word_of_int_eq_iff take_bit_eq_mod)
  ultimately show ?thesis by (simp add: encodeVarint_def Uint8Array_from_def)
qed

lemma byte_unat_7: "unat (of_nat (n mod 128 + 128) :: byte) = n mod 128 + 128"
proof -
  have "unat (of_nat k :: byte) = k" if "k < 256" for k
    using that by (simp add: unat_of_nat)
  from this [of "n mod 128 + 128"] show ?thesis by simp
qed

lemma varint_spec_value: "varint_value (varint_spec n) = n"
proof (induction n rule: varint_spec.induct)
  case (1 n)
  show ?case
  proof (cases "n < 128")
    case True
    then show ?thesis by (subst varint_spec.simps) (simp add: unat_of_nat)
  next
    case False
    have "unat (of_nat (n mod 128 + 128) :: byte) = n mod 128 + 128"
      by (rule byte_unat_7) 
    then show ?thesis using False 1
      by (subst varint_spec.simps) simp
  qed
qed

lemma varint_spec_nonempty: "varint_spec n \<noteq> []"
  by (subst varint_spec.simps) simp

lemma varint_spec_last: "unat (last (varint_spec n)) < 128"
proof (induction n rule: varint_spec.induct)
  case (1 n)
  show ?case
  proof (cases "n < 128")
    case True
    then show ?thesis by (subst varint_spec.simps) (simp add: unat_of_nat)
  next
    case False
    then show ?thesis using 1
      by (subst varint_spec.simps) (simp add: varint_spec_nonempty)
  qed
qed

lemma varint_spec_butlast: "b \<in> set (butlast (varint_spec n)) \<Longrightarrow> 128 \<le> unat b"
proof (induction n arbitrary: b rule: varint_spec.induct)
  case (1 n)
  show ?case
  proof (cases "n < 128")
    case True
    then show ?thesis using 1(2) by (subst (asm) varint_spec.simps) simp
  next
    case False
    have "unat (of_nat (n mod 128 + 128) :: byte) = n mod 128 + 128"
      by (rule byte_unat_7) 
    then show ?thesis using False 1
      by (subst (asm) (2) varint_spec.simps) (auto simp: varint_spec_nonempty)
  qed
qed

lemma encodeVarint_PREFIX: "encodeVarint PREFIX = [0x84, 0x80, 0x66]"
  by (simp add: PREFIX_def encodeVarint_def encodeVarint_loop.simps js_ushr_7 js_and_def
        js_or_def ToInt32_def Uint8Array_from_def)


subsection \<open>Scalars\<close>

lemma le_value_bound: "le_value bs < 256 ^ length bs"
proof (induction bs)
  case Nil
  then show ?case by simp
next
  case (Cons b bs)
  have "unat b < 256" using unsigned_less [of b] by simp
  moreover have "le_value bs + 1 \<le> 256 ^ length bs" using Cons by simp
  then have "256 * (le_value bs + 1) \<le> 256 * 256 ^ length bs" by (rule mult_le_mono2)
  ultimately show ?case by simp
qed

lemma le_value_snoc: "le_value (bs @ [b]) = le_value bs + 256 ^ length bs * unat b"
  by (induction bs) (simp_all add: algebra_simps)

lemma or_push_bit_nat:
  fixes a :: nat
  assumes "a < 2 ^ n"
  shows "a OR push_bit n b = a + 2 ^ n * b"
proof -
  have "a AND push_bit n b = 0"
  proof (rule bit_eqI)
    fix k
    have "\<not> bit a k" if "n \<le> k"
    proof -
      have "a < 2 ^ k" using assms that
        by (meson le_less_trans not_le power_increasing_iff one_less_numeral_iff semiring_norm(76) less_le_trans)
      then show ?thesis by (simp add: bit_iff_odd)
    qed
    then show "bit (a AND push_bit n b) k = bit (0::nat) k"
      by (auto simp: bit_simps)
  qed
  then have "a + push_bit n b = a OR push_bit n b" by (rule disjunctive_add_eq_or)
  then show ?thesis by (simp add: push_bit_eq_mult mult.commute)
qed

lemma scalar_foldl:
  "n \<le> length bs \<Longrightarrow>
   foldl (\<lambda>acc i. acc OR push_bit (i * 8) (unat (bs ! i))) 0 [0..<n] = le_value (take n bs)"
proof (induction n)
  case 0
  then show ?case by simp
next
  case (Suc n)
  have "(2::nat) ^ (n * 8) = (2 ^ 8) ^ n"
    by (simp only: mult.commute [of n 8] power_mult)
  then have p: "(2::nat) ^ (n * 8) = 256 ^ n" by simp
  have b: "le_value (take n bs) < 2 ^ (n * 8)"
    using le_value_bound [of "take n bs"] Suc.prems by (simp add: p)
  have t: "take (Suc n) bs = take n bs @ [bs ! n]"
    using Suc.prems by (simp add: take_Suc_conv_app_nth)
  have "foldl (\<lambda>acc i. acc OR push_bit (i * 8) (unat (bs ! i))) 0 [0..<Suc n]
        = le_value (take n bs) OR push_bit (n * 8) (unat (bs ! n))"
    using Suc by simp
  also have "\<dots> = le_value (take n bs) + 2 ^ (n * 8) * unat (bs ! n)"
    using b by (rule or_push_bit_nat)
  finally show ?case using Suc.prems by (simp add: t le_value_snoc p)
qed

lemma bytesToScalar_eq:
  "bytesToScalar bs = (if length bs < 32 then Inl TypeError else Inr (le_value (take 32 bs)))"
  by (simp add: bytesToScalar_def scalar_foldl)

subsection \<open>The loop of generateWallet\<close>

lemma le_value_replicate_0: "le_value (replicate n 0) = 0"
  by (induction n) simp_all

lemma le_value_replicate_FF: "le_value (replicate n 0xFF) + 1 = 256 ^ n"
  by (induction n) simp_all

lemma generateWallet_loop_skip:
  assumes "random attempts = Inr bs" "bytesToScalar bs = Inr s" "curveOrder \<le> s"
    "attempts + 1 < 1000"
  shows "generateWallet_loop random attempts = generateWallet_loop random (attempts + 1)"
  using assms by (subst generateWallet_loop.simps) simp

lemma generateWallet_loop_stop:
  assumes "random attempts = Inr bs" "bytesToScalar bs = Inr s"
    "s < curveOrder \<or> 1000 \<le> attempts + 1"
  shows "generateWallet_loop random attempts = Inr (bs, s, attempts + 1)"
  using assms by (subst generateWallet_loop.simps) auto

lemma generateWallet_loop_skip_many:
  assumes "\<And>k. a \<le> k \<Longrightarrow> k < a + n \<Longrightarrow> invalid_draw random k" "a + n < 1000"
  shows "generateWallet_loop random a = generateWallet_loop random (a + n)"
  using assms
proof (induction n arbitrary: a)
  case 0
  then show ?case by simp
next
  case (Suc n)
  have "invalid_draw random a" using Suc.prems(1) [of a] by simp
  then obtain bs s where d: "random a = Inr bs" "bytesToScalar bs = Inr s" "curveOrder \<le> s"
    by (auto simp: invalid_draw_def split: sum.splits)
  have "generateWallet_loop random a = generateWallet_loop random (a + 1)"
    using d Suc.prems(2) by (intro generateWallet_loop_skip) simp_all
  moreover have "generateWallet_loop random (a + 1) = generateWallet_loop random ((a + 1) + n)"
    using Suc.prems by (intro Suc.IH) simp_all
  ultimately show ?case by simp
qed

subsection \<open>Base58: the shape of the result\<close>

lemma be_value_snoc: "be_value (bs @ [b]) = 256 * be_value bs + unat b"
  by (induction bs) (simp_all add: algebra_simps)

lemma be_value_bound: "be_value bs < 256 ^ length bs"
proof (induction bs rule: rev_induct)
  case Nil
  then show ?case by simp
next
  case (snoc b bs)
  have "unat b < 256" using unsigned_less [of b] by simp
  moreover have "be_value bs + 1 \<le> 256 ^ length bs" using snoc by simp
  then have "256 * (be_value bs + 1) \<le> 256 * 256 ^ length bs" by (rule mult_le_mono2)
  ultimately show ?case by (simp add: be_value_snoc)
qed

lemma be_foldl:
  "offset + n \<le> length buffer \<Longrightarrow>
   foldl (\<lambda>num i. push_bit 8 num OR unat (buffer ! (offset + i))) 0 [0..<n]
     = be_value (take n (drop offset buffer))"
proof (induction n)
  case 0
  then show ?case by simp
next
  case (Suc n)
  have lt: "unat (buffer ! (offset + n)) < 2 ^ 8"
    using unsigned_less [of "buffer ! (offset + n)"] by simp
  have t: "take (Suc n) (drop offset buffer) = take n (drop offset buffer) @ [buffer ! (offset + n)]"
    using Suc.prems by (simp add: take_Suc_conv_app_nth)
  have "foldl (\<lambda>num i. push_bit 8 num OR unat (buffer ! (offset + i))) 0 [0..<Suc n]
        = push_bit 8 (be_value (take n (drop offset buffer))) OR unat (buffer ! (offset + n))"
    using Suc by simp
  also have "\<dots> = unat (buffer ! (offset + n)) OR push_bit 8 (be_value (take n (drop offset buffer)))"
    by (rule or.commute)
  also have "\<dots> = unat (buffer ! (offset + n)) + 2 ^ 8 * be_value (take n (drop offset buffer))"
    using lt by (rule or_push_bit_nat)
  finally show ?case by (simp add: t be_value_snoc)
qed

lemma uint8BeToBigInt_eq:
  "uint8BeToBigInt buffer offset sz =
     (if sz < 1 \<or> sz > 8 then Inl InvalidSize
      else if offset + sz > length buffer then Inl TypeError
      else Inr (be_value (take sz (drop offset buffer))))"
  by (simp add: uint8BeToBigInt_def be_foldl)

lemma str_index_alphabet: "n < 58 \<Longrightarrow> length (str_index BASE58_ALPHABET n) = 1"
  by (simp add: str_index_def BASE58_ALPHABET_def)

lemma one_char_update: "one_char result \<Longrightarrow> length v = 1 \<Longrightarrow> one_char (result[i := v])"
  by (auto simp: one_char_def list_all_iff dest: set_update_subset_insert [THEN subsetD])

lemma base58_digits_shape:
  "num < 58 ^ nat (j + 1) \<Longrightarrow> - 1 \<le> j \<Longrightarrow> int resultStart + j < int (length result) \<Longrightarrow>
   length (base58_digits num j resultStart result) = length result \<and>
   (one_char result \<longrightarrow> one_char (base58_digits num j resultStart result))"
proof (induction num j resultStart result rule: base58_digits.induct)
  case (1 num j resultStart result)
  show ?case
  proof (cases "num > 0")
    case False
    then show ?thesis by (subst base58_digits.simps, subst base58_digits.simps) simp
  next
    case True
    have j0: "0 \<le> j"
    proof (rule ccontr)
      assume "\<not> 0 \<le> j"
      then have "j = - 1" using 1(3) by simp
      then show False using 1(2) True by simp
    qed
    let ?r = "array_set result (int resultStart + j) (str_index BASE58_ALPHABET (num mod 58))"
    have idx: "nat (int resultStart + j) < length result" using 1(4) j0 by simp
    have r: "?r = result[nat (int resultStart + j) := str_index BASE58_ALPHABET (num mod 58)]"
      using idx j0 by (simp add: array_set_def)
    have len: "length ?r = length result" by (simp add: r)
    have oc: "one_char result \<Longrightarrow> one_char ?r"
      unfolding r by (rule one_char_update) (simp_all add: str_index_alphabet)
    have "nat (j + 1) = Suc (nat j)" using j0 by simp
    then have "num < 58 * 58 ^ nat j" using 1(2) by simp
    then have "num div 58 < 58 ^ nat (j - 1 + 1)"
      by (simp add: less_mult_imp_div_less mult.commute)
    moreover have "- 1 \<le> j - 1" using j0 by simp
    moreover have "int resultStart + (j - 1) < int (length ?r)" using 1(4) len by simp
    ultimately have ih: "length (base58_digits (num div 58) (j - 1) resultStart ?r) = length ?r \<and>
        (one_char ?r \<longrightarrow> one_char (base58_digits (num div 58) (j - 1) resultStart ?r))"
      using 1(1) [OF True] by blast
    have "base58_digits num j resultStart result = base58_digits (num div 58) (j - 1) resultStart ?r"
      using True by (subst base58_digits.simps) simp
    then show ?thesis using ih len oc by simp
  qed
qed

lemma block_capacity:
  "1 \<le> sz \<Longrightarrow> sz \<le> 8 \<Longrightarrow> (256::nat) ^ sz \<le> 58 ^ (ENCODED_BLOCK_SIZES ! sz)"
proof -
  assume "1 \<le> sz" "sz \<le> 8"
  then consider "sz = 1" | "sz = 2" | "sz = 3" | "sz = 4" | "sz = 5" | "sz = 6" | "sz = 7" | "sz = 8"
    by linarith
  then show ?thesis
    by cases (simp_all add: ENCODED_BLOCK_SIZES_def)
qed

lemma block_size_pos: "1 \<le> sz \<Longrightarrow> sz \<le> 8 \<Longrightarrow> 1 \<le> ENCODED_BLOCK_SIZES ! sz"
proof -
  assume "1 \<le> sz" "sz \<le> 8"
  then consider "sz = 1" | "sz = 2" | "sz = 3" | "sz = 4" | "sz = 5" | "sz = 6" | "sz = 7" | "sz = 8"
    by linarith
  then show ?thesis
    by cases (simp_all add: ENCODED_BLOCK_SIZES_def)
qed

lemma encode_block_shape:
  assumes "1 \<le> sz" "sz \<le> 8" "blockStart + sz \<le> length buffer"
    "resultStart + ENCODED_BLOCK_SIZES ! sz \<le> length result"
  shows "\<exists>r. encode_block buffer blockStart sz resultStart result = Inr r \<and>
           length r = length result \<and> (one_char result \<longrightarrow> one_char r)"
proof -
  let ?num = "be_value (take sz (drop blockStart buffer))"
  let ?w = "ENCODED_BLOCK_SIZES ! sz"
  have "?num < 256 ^ length (take sz (drop blockStart buffer))" by (rule be_value_bound)
  also have "length (take sz (drop blockStart buffer)) = sz" using assms(3) by simp
  finally have "?num < 58 ^ ?w" using block_capacity [OF assms(1,2)] by simp
  moreover have "nat (int ?w - 1 + 1) = ?w" by simp
  ultimately have b: "?num < 58 ^ nat (int ?w - 1 + 1)" by simp
  have "length (base58_digits ?num (int ?w - 1) resultStart result) = length result \<and>
        (one_char result \<longrightarrow> one_char (base58_digits ?num (int ?w - 1) resultStart result))"
    using b assms(4) block_size_pos [OF assms(1,2)]
    by (intro base58_digits_shape) simp_all
  then show ?thesis using assms(1,2,3)
    by (simp add: encode_block_def uint8BeToBigInt_eq)
qed

lemma full_blocks_loop_shape:
  assumes "(a + n) * 8 \<le> length buffer" "(a + n) * 11 \<le> length result"
  shows "\<exists>r. full_blocks_loop buffer [a..<a + n] result = Inr r \<and>
           length r = length result \<and> (one_char result \<longrightarrow> one_char r)"
  using assms
proof (induction n arbitrary: a result)
  case 0
  then show ?case by simp
next
  case (Suc n)
  have u: "[a..<a + Suc n] = a # [a + 1..<(a + 1) + n]" by (simp add: upt_rec)
  have "\<exists>r. encode_block buffer (a * 8) 8 (a * 11) result = Inr r \<and>
           length r = length result \<and> (one_char result \<longrightarrow> one_char r)"
    using Suc.prems by (intro encode_block_shape) (simp_all add: ENCODED_BLOCK_SIZES_def)
  then obtain r1 where r1: "encode_block buffer (a * 8) 8 (a * 11) result = Inr r1"
      "length r1 = length result" "one_char result \<longrightarrow> one_char r1" by blast
  have "\<exists>r. full_blocks_loop buffer [a + 1..<(a + 1) + n] r1 = Inr r \<and>
           length r = length r1 \<and> (one_char r1 \<longrightarrow> one_char r)"
    using Suc.prems r1(2) by (intro Suc.IH) simp_all
  then obtain r where r: "full_blocks_loop buffer [a + 1..<(a + 1) + n] r1 = Inr r"
      "length r = length r1" "one_char r1 \<longrightarrow> one_char r" by blast
  have "full_blocks_loop buffer [a..<a + Suc n] result
        = full_blocks_loop buffer [a + 1..<(a + 1) + n] r1"
    unfolding u using r1(1)
    by (simp add: FULL_BLOCK_SIZE_def FULL_ENCODED_BLOCK_SIZE_def del: upt_Suc)
  then show ?case using r r1 by auto
qed

lemma length_concat_one_char: "one_char r \<Longrightarrow> length (concat r) = length r"
  by (induction r) (simp_all add: one_char_def)

lemma one_char_replicate: "one_char (replicate n (str_index BASE58_ALPHABET 0))"
  by (simp add: one_char_def list_all_iff str_index_alphabet)

lemma block_size_last: "m < 8 \<Longrightarrow> ENCODED_BLOCK_SIZES ! m \<le> 11"
proof -
  assume "m < 8"
  then consider "m = 0" | "m = 1" | "m = 2" | "m = 3" | "m = 4" | "m = 5" | "m = 6" | "m = 7"
    by linarith
  then show ?thesis
    by cases (simp_all add: ENCODED_BLOCK_SIZES_def)
qed


lemma base58Encode_shape:
  "\<exists>s. base58Encode buffer = Inr s \<and>
     length s = (length buffer div 8) * 11 + [0, 2, 3, 5, 6, 7, 9, 10, 11] ! (length buffer mod 8)"
proof (cases "length buffer = 0")
  case True
  then show ?thesis by (simp add: base58Encode_def)
next
  case False
  define q where "q = length buffer div 8"
  define m where "m = length buffer mod 8"
  define size where "size = q * 11 + ENCODED_BLOCK_SIZES ! m"
  define result where "result = replicate size (str_index BASE58_ALPHABET 0)"
  have qm: "length buffer = q * 8 + m" "m < 8" by (simp_all add: q_def m_def)
  have "\<exists>r. full_blocks_loop buffer [0..<0 + q] result = Inr r \<and>
           length r = length result \<and> (one_char result \<longrightarrow> one_char r)"
    using qm by (intro full_blocks_loop_shape) (simp_all add: result_def size_def)
  then obtain r1 where r1: "full_blocks_loop buffer [0..<q] result = Inr r1"
      "length r1 = size" "one_char r1"
    by (auto simp: result_def one_char_replicate)
  have "\<exists>r2. (if m > 0 then encode_block buffer (q * 8) m (q * 11) r1 else Inr r1) = Inr r2 \<and>
           length r2 = size \<and> one_char r2"
  proof (cases "m > 0")
    case True
    have "\<exists>r. encode_block buffer (q * 8) m (q * 11) r1 = Inr r \<and>
           length r = length r1 \<and> (one_char r1 \<longrightarrow> one_char r)"
      using True qm r1(2) by (intro encode_block_shape) (simp_all add: size_def)
    then show ?thesis using True r1 by auto
  next
    case False
    then show ?thesis using r1 by simp
  qed
  then obtain r2 where r2: "(if m > 0 then encode_block buffer (q * 8) m (q * 11) r1 else Inr r1) = Inr r2"
      "length r2 = size" "one_char r2" by blast
  have "base58Encode buffer =
      bind (full_blocks_loop buffer [0..<q] result) (\<lambda>result1.
      bind (if m > 0 then encode_block buffer (q * 8) m (q * 11) result1 else Inr result1)
        (\<lambda>result2. Inr (concat result2)))"
    unfolding base58Encode_def Let_def FULL_BLOCK_SIZE_def FULL_ENCODED_BLOCK_SIZE_def
      q_def m_def size_def result_def
    using False by simp
  then have "base58Encode buffer = Inr (concat r2)"
    by (simp only: r1(1) r2(1) bind_Inr)
  moreover have "length (concat r2) = size" using r2 by (simp add: length_concat_one_char)
  ultimately show ?thesis
    by (simp add: size_def q_def m_def ENCODED_BLOCK_SIZES_def)
qed

subsection \<open>Base58: the contents of the blocks\<close>

lemma length_base58_number: "n < 58 ^ k \<Longrightarrow> length (base58_number n) \<le> k"
proof (induction n arbitrary: k rule: base58_number.induct)
  case (1 n)
  show ?case
  proof (cases "n = 0")
    case True
    then show ?thesis by (subst base58_number.simps) simp
  next
    case False
    then obtain k' where k: "k = Suc k'" using 1(2) by (cases k) auto
    then have "n div 58 < 58 ^ k'" using 1(2) by (simp add: less_mult_imp_div_less mult.commute)
    then have "length (base58_number (n div 58)) \<le> k'" using 1(1) [OF False] by simp
    then show ?thesis using False k by (subst base58_number.simps) simp
  qed
qed

lemma str_index_alphabet_eq: "n < 58 \<Longrightarrow> str_index BASE58_ALPHABET n = single (BASE58_ALPHABET ! n)"
  by (simp add: str_index_def BASE58_ALPHABET_def single_def)

lemma base58_digits_eq:
  "- 1 \<le> j \<Longrightarrow> num < 58 ^ nat (j + 1) \<Longrightarrow> resultStart + nat (j + 1) \<le> length result \<Longrightarrow>
   base58_digits num j resultStart result =
     take (resultStart + nat (j + 1) - length (base58_number num)) result
     @ map single (base58_number num) @ drop (resultStart + nat (j + 1)) result"
proof (induction num j resultStart result rule: base58_digits.induct)
  case (1 num j resultStart result)
  show ?case
  proof (cases "num > 0")
    case False
    then have z: "num = 0" by simp
    have "base58_number 0 = []" by (subst base58_number.simps) simp
    moreover have "base58_digits 0 j resultStart result = result"
      by (subst base58_digits.simps) simp
    ultimately show ?thesis unfolding z by simp
  next
    case True
    have j0: "0 \<le> j"
    proof (rule ccontr)
      assume "\<not> 0 \<le> j"
      then have "j = - 1" using 1(2) by simp
      then show False using 1(3) True by simp
    qed
    define p where "p = resultStart + nat (j + 1)"
    define c where "c = BASE58_ALPHABET ! (num mod 58)"
    define ds where "ds = base58_number (num div 58)"
    let ?r = "array_set result (int resultStart + j) (str_index BASE58_ALPHABET (num mod 58))"
    have pj: "nat (int resultStart + j) = p - 1" "0 < p" "p \<le> length result"
      "resultStart + nat (j - 1 + 1) = p - 1"
      using j0 1(4) by (simp_all add: p_def nat_add_distrib)
    have idx: "p - 1 < length result" using pj(2,3) by arith
    have nn: "\<not> int resultStart + j < 0" using j0 by simp
    have "str_index BASE58_ALPHABET (num mod 58) = single c"
      unfolding c_def by (rule str_index_alphabet_eq) simp
    then have r: "?r = result[p - 1 := single c]"
      unfolding array_set_def pj(1) using idx nn by simp
    have n: "base58_number num = ds @ [c]"
      using True by (subst base58_number.simps) (simp add: ds_def c_def)
    have "nat (j + 1) = Suc (nat j)" using j0 by simp
    then have "num < 58 * 58 ^ nat j" using 1(3) by simp
    then have b: "num div 58 < 58 ^ nat (j - 1 + 1)"
      by (simp add: less_mult_imp_div_less mult.commute)
    then have dl: "length ds \<le> nat j" using length_base58_number [of "num div 58" "nat j"]
      by (simp add: ds_def)
    have "base58_digits (num div 58) (j - 1) resultStart ?r =
        take (resultStart + nat (j - 1 + 1) - length (base58_number (num div 58))) ?r
        @ map single (base58_number (num div 58)) @ drop (resultStart + nat (j - 1 + 1)) ?r"
      using 1(1) [OF True] b j0 pj(3,4) by (simp add: r)
    then have ih: "base58_digits (num div 58) (j - 1) resultStart ?r =
        take (p - 1 - length ds) ?r @ map single ds @ drop (p - 1) ?r"
      by (simp only: pj(4) ds_def)
    have t: "take (p - 1 - length ds) ?r = take (p - Suc (length ds)) result"
      unfolding r by (simp add: take_update_cancel)
    have "drop (p - 1) (result[p - 1 := single c])
          = (result[p - 1 := single c]) ! (p - 1) # drop (Suc (p - 1)) (result[p - 1 := single c])"
      using pj by (intro Cons_nth_drop_Suc [symmetric]) simp
    then have d: "drop (p - 1) ?r = single c # drop p result"
      unfolding r using pj by simp
    have "base58_digits num j resultStart result = base58_digits (num div 58) (j - 1) resultStart ?r"
      using True by (subst base58_digits.simps) simp
    then show ?thesis
      unfolding ih t d p_def [symmetric] n by simp
  qed
qed

lemma length_block_spec:
  assumes "1 \<le> length blk" "length blk \<le> 8"
  shows "length (block_spec blk) = ENCODED_BLOCK_SIZES ! length blk"
proof -
  have "be_value blk < 256 ^ length blk" by (rule be_value_bound)
  then have "be_value blk < 58 ^ (ENCODED_BLOCK_SIZES ! length blk)"
    using block_capacity [OF assms] by simp
  then have "length (base58_number (be_value blk)) \<le> ENCODED_BLOCK_SIZES ! length blk"
    by (rule length_base58_number)
  then show ?thesis by (simp add: block_spec_def Let_def)
qed

lemma encode_block_eq:
  assumes "1 \<le> sz" "sz \<le> 8" "blockStart + sz \<le> length buffer"
    and "length pre = resultStart"
  shows "encode_block buffer blockStart sz resultStart
           (pre @ replicate (ENCODED_BLOCK_SIZES ! sz) (str_index BASE58_ALPHABET 0) @ post)
         = Inr (pre @ map single (block_spec (take sz (drop blockStart buffer))) @ post)"
proof -
  define blk where "blk = take sz (drop blockStart buffer)"
  define w where "w = ENCODED_BLOCK_SIZES ! sz"
  define ds where "ds = base58_number (be_value blk)"
  define one where "one = str_index BASE58_ALPHABET 0"
  have lb: "length blk = sz" using assms(3) by (simp add: blk_def)
  have "be_value blk < 256 ^ length blk" by (rule be_value_bound)
  then have bound: "be_value blk < 58 ^ w"
    using block_capacity [OF assms(1,2)] lb by (simp add: w_def)
  then have dl: "length ds \<le> w" unfolding ds_def by (rule length_base58_number)
  have w1: "1 \<le> w" using block_size_pos [OF assms(1,2)] by (simp add: w_def)
  have o: "one = single (BASE58_ALPHABET ! 0)"
    unfolding one_def by (rule str_index_alphabet_eq) simp
  let ?result = "pre @ replicate w one @ post"
  have "base58_digits (be_value blk) (int w - 1) resultStart ?result =
      take (resultStart + nat (int w - 1 + 1) - length (base58_number (be_value blk))) ?result
      @ map single (base58_number (be_value blk))
      @ drop (resultStart + nat (int w - 1 + 1)) ?result"
    using bound w1 assms(4) by (intro base58_digits_eq) simp_all
  also have "\<dots> = pre @ replicate (w - length ds) one @ map single ds @ post"
    using dl assms(4) by (simp add: ds_def)
  also have "\<dots> = pre @ map single (block_spec blk) @ post"
    by (simp add: block_spec_def Let_def ds_def [symmetric] lb w_def [symmetric] o)
  finally show ?thesis
    using assms(1,2,3)
    by (simp add: encode_block_def uint8BeToBigInt_eq blk_def [symmetric] w_def [symmetric]
          one_def [symmetric])
qed

lemma length_concat_const:
  "(\<And>k. k < n \<Longrightarrow> length (g k) = c) \<Longrightarrow> length (concat (map g [0..<n])) = n * c"
  by (induction n) simp_all

lemma full_blocks_loop_eq:
  assumes "(a + n) * 8 \<le> length buffer" "length pre = a * 11"
  shows "full_blocks_loop buffer [a..<a + n]
           (pre @ replicate (n * 11) (str_index BASE58_ALPHABET 0) @ post)
         = Inr (pre @ map single (concat (map (\<lambda>i. block_spec (take 8 (drop (i * 8) buffer)))
                                           [a..<a + n])) @ post)"
  using assms
proof (induction n arbitrary: a pre)
  case 0
  then show ?case by simp
next
  case (Suc n)
  let ?one = "str_index BASE58_ALPHABET 0"
  let ?blk = "take 8 (drop (a * 8) buffer)"
  have u: "[a..<a + Suc n] = a # [a + 1..<(a + 1) + n]" by (simp add: upt_rec)
  have e8: "ENCODED_BLOCK_SIZES ! 8 = 11" by (simp add: ENCODED_BLOCK_SIZES_def)
  have s: "pre @ replicate (Suc n * 11) ?one @ post
           = pre @ replicate (ENCODED_BLOCK_SIZES ! 8) ?one @ (replicate (n * 11) ?one @ post)"
    by (simp add: e8 replicate_add [symmetric])
  have "encode_block buffer (a * 8) 8 (a * 11)
          (pre @ replicate (ENCODED_BLOCK_SIZES ! 8) ?one @ (replicate (n * 11) ?one @ post))
        = Inr (pre @ map single (block_spec ?blk) @ (replicate (n * 11) ?one @ post))"
    using Suc.prems by (intro encode_block_eq) simp_all
  then have b: "encode_block buffer (a * 8) 8 (a * 11) (pre @ replicate (Suc n * 11) ?one @ post)
           = Inr (pre @ map single (block_spec ?blk) @ (replicate (n * 11) ?one @ post))"
    by (simp only: s)
  have lb: "length ?blk = 8" using Suc.prems(1) by simp
  then have l: "length (pre @ map single (block_spec ?blk)) = (a + 1) * 11"
    using Suc.prems(2) length_block_spec [of ?blk] by (simp add: e8)
  have ih: "full_blocks_loop buffer [a + 1..<(a + 1) + n]
              ((pre @ map single (block_spec ?blk)) @ replicate (n * 11) ?one @ post)
            = Inr ((pre @ map single (block_spec ?blk))
                   @ map single (concat (map (\<lambda>i. block_spec (take 8 (drop (i * 8) buffer)))
                                           [a + 1..<(a + 1) + n])) @ post)"
    using Suc.prems(1) l by (intro Suc.IH) simp_all
  have "full_blocks_loop buffer [a..<a + Suc n] (pre @ replicate (Suc n * 11) ?one @ post)
        = full_blocks_loop buffer [a + 1..<(a + 1) + n]
            ((pre @ map single (block_spec ?blk)) @ replicate (n * 11) ?one @ post)"
    unfolding u using b
    by (simp add: FULL_BLOCK_SIZE_def FULL_ENCODED_BLOCK_SIZE_def del: upt_Suc replicate_Suc)
  then show ?case
    unfolding ih unfolding u
    by (simp del: upt_Suc replicate_Suc)
qed

lemma blocks_full:
  "n * 8 \<le> length bs \<Longrightarrow>
   blocks bs = map (\<lambda>i. take 8 (drop (i * 8) bs)) [0..<n] @ blocks (drop (n * 8) bs)"
proof (induction n arbitrary: bs)
  case 0
  then show ?case by simp
next
  case (Suc n)
  have u: "[0..<Suc n] = 0 # map Suc [0..<n]"
    by (simp add: upt_conv_Cons map_Suc_upt del: upt_Suc)
  have ne: "bs \<noteq> []" using Suc.prems by auto
  have "blocks (drop 8 bs)
        = map (\<lambda>i. take 8 (drop (i * 8) (drop 8 bs))) [0..<n] @ blocks (drop (n * 8) (drop 8 bs))"
    using Suc.prems by (intro Suc.IH) simp
  then have "blocks bs = take 8 bs # map (\<lambda>i. take 8 (drop (i * 8) (drop 8 bs))) [0..<n]
                         @ blocks (drop (n * 8) (drop 8 bs))"
    using ne by (subst blocks.simps) simp
  then show ?case unfolding u by (simp add: comp_def add.commute)
qed

lemma blocks_last: "bs \<noteq> [] \<Longrightarrow> length bs < 8 \<Longrightarrow> blocks bs = [bs]"
  by (subst blocks.simps, subst blocks.simps) simp

lemma blocks_Nil: "blocks [] = []"
  by (subst blocks.simps) simp

lemma base58Encode_blocks:
  "base58Encode buffer = Inr (concat (map block_spec (blocks buffer)))"
proof (cases "length buffer = 0")
  case True
  then show ?thesis by (simp add: base58Encode_def blocks_Nil)
next
  case False
  define q where "q = length buffer div 8"
  define m where "m = length buffer mod 8"
  define one where "one = str_index BASE58_ALPHABET 0"
  define full where "full = concat (map (\<lambda>i. block_spec (take 8 (drop (i * 8) buffer))) [0..<q])"
  have qm: "length buffer = q * 8 + m" "m < 8" by (simp_all add: q_def m_def)
  have e: "base58Encode buffer =
      bind (full_blocks_loop buffer [0..<q] (replicate (q * 11 + ENCODED_BLOCK_SIZES ! m) one))
        (\<lambda>result1.
      bind (if m > 0 then encode_block buffer (q * 8) m (q * 11) result1 else Inr result1)
        (\<lambda>result2. Inr (concat result2)))"
    unfolding base58Encode_def Let_def FULL_BLOCK_SIZE_def FULL_ENCODED_BLOCK_SIZE_def
      q_def m_def one_def
    using False by simp
  have "full_blocks_loop buffer [0..<0 + q]
          ([] @ replicate (q * 11) one @ replicate (ENCODED_BLOCK_SIZES ! m) one)
        = Inr ([] @ map single (concat (map (\<lambda>i. block_spec (take 8 (drop (i * 8) buffer)))
                                           [0..<0 + q])) @ replicate (ENCODED_BLOCK_SIZES ! m) one)"
    unfolding one_def using qm by (intro full_blocks_loop_eq) simp_all
  then have l: "full_blocks_loop buffer [0..<q] (replicate (q * 11 + ENCODED_BLOCK_SIZES ! m) one)
        = Inr (map single full @ replicate (ENCODED_BLOCK_SIZES ! m) one)"
    by (simp add: replicate_add full_def)
  have lf: "length full = q * 11"
    unfolding full_def
  proof (rule length_concat_const)
    fix i assume "i < q"
    then have "Suc i * 8 \<le> q * 8" by (simp only: mult_le_mono1 Suc_leI)
    then have "length (take 8 (drop (i * 8) buffer)) = 8" using qm(1) by simp
    then show "length (block_spec (take 8 (drop (i * 8) buffer))) = 11"
      using length_block_spec [of "take 8 (drop (i * 8) buffer)"]
      by (simp add: ENCODED_BLOCK_SIZES_def)
  qed
  have bl: "blocks buffer = map (\<lambda>i. take 8 (drop (i * 8) buffer)) [0..<q] @ blocks (drop (q * 8) buffer)"
    using qm by (intro blocks_full) simp
  show ?thesis
  proof (cases "m > 0")
    case True
    have "encode_block buffer (q * 8) m (q * 11)
            (map single full @ replicate (ENCODED_BLOCK_SIZES ! m) (str_index BASE58_ALPHABET 0) @ [])
          = Inr (map single full @ map single (block_spec (take m (drop (q * 8) buffer))) @ [])"
      using True qm lf by (intro encode_block_eq) simp_all
    then have "base58Encode buffer
        = Inr (concat (map single (full @ block_spec (take m (drop (q * 8) buffer)))))"
      unfolding e l using True by (simp add: one_def)
    moreover have "concat (map single xs) = xs" for xs
      by (induction xs) (simp_all add: single_def)
    ultimately have r: "base58Encode buffer = Inr (full @ block_spec (take m (drop (q * 8) buffer)))"
      by (simp only:)
    have "take m (drop (q * 8) buffer) = drop (q * 8) buffer" using qm by simp
    moreover have "blocks (drop (q * 8) buffer) = [drop (q * 8) buffer]"
      using True qm by (intro blocks_last) auto
    ultimately show ?thesis
      unfolding bl r by (simp add: full_def comp_def)
  next
    case False
    then have m0: "m = 0" by simp
    have "base58Encode buffer = Inr (concat (map single full))"
      unfolding e l using m0 by (simp add: ENCODED_BLOCK_SIZES_def)
    moreover have "concat (map single xs) = xs" for xs
      by (induction xs) (simp_all add: single_def)
    ultimately have r: "base58Encode buffer = Inr full" by (simp only:)
    have "blocks (drop (q * 8) buffer) = []"
      using qm m0 by (simp add: blocks_Nil)
    then show ?thesis unfolding bl r by (simp add: full_def comp_def)
  qed
qed

lemma blocks_sizes: "blk \<in> set (blocks bs) \<Longrightarrow> 1 \<le> length blk \<and> length blk \<le> 8"
proof (induction bs rule: blocks.induct)
  case (1 bs)
  show ?case
  proof (cases "bs = []")
    case True
    then show ?thesis using 1(2) by (simp add: blocks_Nil)
  next
    case False
    then have "blocks bs = take 8 bs # blocks (drop 8 bs)" by (subst blocks.simps) simp
    then have "blk = take 8 bs \<or> blk \<in> set (blocks (drop 8 bs))" using 1(2) by simp
    then show ?thesis
    proof
      assume "blk = take 8 bs"
      then show ?thesis using False by (cases bs) simp_all
    next
      assume "blk \<in> set (blocks (drop 8 bs))"
      then show ?thesis using 1(1) [OF False] by simp
    qed
  qed
qed

lemma concat_blocks: "concat (blocks bs) = bs"
proof (induction bs rule: blocks.induct)
  case (1 bs)
  show ?case
  proof (cases "bs = []")
    case True
    then show ?thesis by (simp add: blocks_Nil)
  next
    case False
    then have "blocks bs = take 8 bs # blocks (drop 8 bs)" by (subst blocks.simps) simp
    then show ?thesis using 1 [OF False] by simp
  qed
qed

subsection \<open>The word list\<close>

lemma length_WORDLIST: "length WORDLIST = 1626"
  by (simp add: WORDLIST_def)

lemma successively_step:
  "x < y \<Longrightarrow> successively (<) (y # ys) \<Longrightarrow> successively (<) (x # y # ys)"
  by simp

lemma successively_WORDLIST: "successively (<) WORDLIST"
  unfolding WORDLIST_def
  apply (rule successively_step, simp)+
  apply simp
  done

lemma distinct_WORDLIST: "distinct WORDLIST"
proof -
  have "sorted_wrt (<) WORDLIST"
    using successively_WORDLIST by (simp add: successively_conv_sorted_wrt)
  then show ?thesis by (simp add: strict_sorted_iff)
qed

lemma plain_good: "plain w \<Longrightarrow> good_word w"
proof -
  have "\<not> is_space c" if "digit6 c \<and> \<not> digit7 c" for c
    using that by (cases c) (auto simp: is_space_def)
  then show "plain w \<Longrightarrow> good_word w"
    by (auto simp: plain_def good_word_def list_all_iff)
qed

lemma list_all_step: "P x \<Longrightarrow> list_all P xs \<Longrightarrow> list_all P (x # xs)"
  by simp

lemma plain_WORDLIST: "list_all plain WORDLIST"
  unfolding WORDLIST_def
  apply (rule list_all_step, simp add: plain_def)+
  apply simp
  done

lemma good_WORDLIST: "w \<in> set WORDLIST \<Longrightarrow> good_word w"
  using plain_WORDLIST by (auto simp: list_all_iff intro: plain_good)

subsection \<open>indexOf\<close>

lemma indexOf_from_nth:
  "distinct xs \<Longrightarrow> i < length xs \<Longrightarrow> indexOf_from xs (xs ! i) k = k + int i"
proof (induction xs arbitrary: i k)
  case Nil
  then show ?case by simp
next
  case (Cons y ys)
  show ?case
  proof (cases i)
    case 0
    then show ?thesis by simp
  next
    case (Suc j)
    then have "ys ! j \<in> set ys" using Cons.prems by simp
    then have "y \<noteq> ys ! j" using Cons.prems(1) by auto
    then show ?thesis using Suc Cons by simp
  qed
qed

lemma indexOf_from_range:
  "indexOf_from xs x k = r \<Longrightarrow> 0 \<le> k \<Longrightarrow>
   (r = -1 \<and> x \<notin> set xs) \<or> (k \<le> r \<and> r < k + int (length xs) \<and> x \<in> set xs)"
proof (induction xs arbitrary: k)
  case Nil
  then show ?case by simp
next
  case (Cons y ys)
  show ?case
  proof (cases "y = x")
    case True
    then show ?thesis using Cons.prems by auto
  next
    case False
    then have "indexOf_from ys x (k + 1) = r" using Cons.prems by simp
    from Cons.IH [OF this] Cons.prems(2) False show ?thesis by auto
  qed
qed

lemma getWordIndex_nth: "i < 1626 \<Longrightarrow> getWordIndex (WORDLIST ! i) = Inr (int i)"
  using indexOf_from_nth [OF distinct_WORDLIST, of i 0]
  by (simp add: getWordIndex_def indexOf_def length_WORDLIST Let_def)

lemma getWordIndex_cases:
  "(getWordIndex w = Inl (UnknownWord w) \<and> w \<notin> set WORDLIST) \<or>
   (\<exists>i. getWordIndex w = Inr i \<and> 0 \<le> i \<and> i < 1626 \<and> w \<in> set WORDLIST)"
  using indexOf_from_range [of WORDLIST w 0 "indexOf WORDLIST w"]
  by (auto simp: getWordIndex_def indexOf_def length_WORDLIST Let_def)

subsection \<open>join, trim and split\<close>

lemma split_ws_nonempty: "split_ws s \<noteq> []"
  by (induction s rule: split_ws.induct) (auto split: list.splits)

lemma split_ws_word:
  "list_all (\<lambda>c. \<not> is_space c) w \<Longrightarrow>
   split_ws (w @ r) = (w @ hd (split_ws r)) # tl (split_ws r)"
proof (induction w)
  case Nil
  then show ?case using split_ws_nonempty [of r] by simp
next
  case (Cons c w)
  then show ?case using split_ws_nonempty [of "w @ r"]
    by (simp split: list.splits)
qed

lemma split_ws_single: "list_all (\<lambda>c. \<not> is_space c) w \<Longrightarrow> split_ws w = [w]"
  using split_ws_word [of w "[]"] by simp

lemma dropWhile_good: "good_word w \<Longrightarrow> dropWhile is_space (w @ r) = w @ r"
  by (cases w) (simp_all add: good_word_def)

lemma split_join:
  "ws \<noteq> [] \<Longrightarrow> list_all good_word ws \<Longrightarrow>
   split_ws (join '' '' (map Some ws)) = ws \<and>
   dropWhile is_space (join '' '' (map Some ws)) = join '' '' (map Some ws)"
proof (induction ws rule: list_nonempty_induct)
  case (single w)
  then show ?case
    using dropWhile_good [of w "[]"] by (simp add: good_word_def split_ws_single)
next
  case (cons w ws)
  obtain x xs where ws: "ws = x # xs" using cons.hyps by (cases ws) auto
  let ?r = "join '' '' (map Some ws)"
  have gw: "good_word w" and gws: "list_all good_word ws" using cons.prems by simp_all
  have ih: "split_ws ?r = ws" "dropWhile is_space ?r = ?r" using cons.IH [OF gws] by simp_all
  have j: "join '' '' (map Some (w # ws)) = w @ CHR '' '' # ?r" by (simp add: ws)
  have sp: "is_space CHR '' ''" by (simp add: is_space_def)
  have "split_ws (CHR '' '' # ?r) = [] # ws" using sp ih by simp
  then have "split_ws (w @ CHR '' '' # ?r) = w # ws"
    using split_ws_word [of w "CHR '' '' # ?r"] gw by (simp add: good_word_def)
  moreover have "dropWhile is_space (w @ CHR '' '' # ?r) = w @ CHR '' '' # ?r"
    using gw by (rule dropWhile_good)
  ultimately show ?case by (simp only: j)
qed

lemma join_last_good:
  "ws \<noteq> [] \<Longrightarrow> list_all good_word ws \<Longrightarrow>
   join '' '' (map Some ws) \<noteq> [] \<and> \<not> is_space (last (join '' '' (map Some ws)))"
proof (induction ws rule: list_nonempty_induct)
  case (single w)
  then show ?case by (auto simp: good_word_def list_all_iff)
next
  case (cons w ws)
  obtain x xs where ws: "ws = x # xs" using cons.hyps by (cases ws) auto
  have "join '' '' (map Some (w # ws)) = w @ CHR '' '' # join '' '' (map Some ws)"
    by (simp add: ws)
  then show ?case using cons by simp
qed

lemma trim_join:
  assumes "ws \<noteq> []" "list_all good_word ws"
  shows "trim (join '' '' (map Some ws)) = join '' '' (map Some ws)"
proof -
  let ?s = "join '' '' (map Some ws)"
  have a: "dropWhile is_space ?s = ?s" using split_join [OF assms] by simp
  have "?s \<noteq> []" "\<not> is_space (last ?s)" using join_last_good [OF assms] by simp_all
  then have "dropWhile is_space (rev ?s) = rev ?s"
    by (cases "rev ?s") (simp_all add: last_rev [symmetric] hd_rev)
  then show ?thesis by (simp add: trim_def a)
qed

lemma words_of_join:
  "ws \<noteq> [] \<Longrightarrow> list_all good_word ws \<Longrightarrow> split_ws (trim (join '' '' (map Some ws))) = ws"
  by (simp add: trim_join split_join)

subsection \<open>Groups of four bytes\<close>

lemma getUint32_le_eq:
  "getUint32_le bs i = (if i + 4 > length bs then Inl RangeError else Inr (le32 bs i))"
  by (simp add: getUint32_le_def le32_def)

lemma byte_less: "unat (b :: byte) < 256"
  using unsigned_less [of b] by simp

lemma le32_bound: "le32 bs i < 2 ^ 32"
proof -
  have "unat (bs ! i) \<le> 255" "unat (bs ! (i + 1)) \<le> 255" "unat (bs ! (i + 2)) \<le> 255"
    "unat (bs ! (i + 3)) \<le> 255"
    using byte_less [of "bs ! i"] byte_less [of "bs ! (i + 1)"] byte_less [of "bs ! (i + 2)"]
      byte_less [of "bs ! (i + 3)"] by simp_all
  then show ?thesis unfolding le32_def by simp
qed

lemma byte_of_sum: "(word_of_int (int (unat b + 256 * k)) :: byte) = b"
proof -
  have "(unat b + 256 * k) mod 256 = unat b" using byte_less [of b] by simp
  then have "unat (of_nat (unat b + 256 * k) :: byte) = unat b"
    by (simp add: unat_of_nat del: of_nat_add of_nat_mult)
  then have "(of_nat (unat b + 256 * k) :: byte) = b"
    by (simp only: word_unat_eq_iff)
  then show ?thesis by (simp only: of_int_of_nat_eq)
qed

lemma uint32_le_bytes_eq:
  "uint32_le_bytes (int (unat b0 + 256 * unat b1 + 65536 * unat b2 + 16777216 * unat b3))
   = [b0, b1, b2, b3 :: byte]"
proof -
  let ?v = "unat b0 + 256 * unat b1 + 65536 * unat b2 + 16777216 * unat b3"
  have lt: "unat b0 < 256" "unat b1 < 256" "unat b2 < 256" "unat b3 < 256"
    by (rule byte_less)+
  then have "?v < 2 ^ 32" by simp
  then have u: "ToUint32 (int ?v) = int ?v"
    unfolding ToUint32_def by (simp add: zmod_int [symmetric] del: of_nat_add of_nat_mult)
  have d0: "?v = unat b0 + 256 * (unat b1 + 256 * unat b2 + 65536 * unat b3)" by simp
  have d1: "?v div 256 = unat b1 + 256 * (unat b2 + 256 * unat b3)" using lt by simp
  have d2: "?v div 256 ^ 2 = unat b2 + 256 * unat b3" using lt by simp
  have d3: "?v div 256 ^ 3 = unat b3 + 256 * 0" using lt by simp
  have i: "int ?v div 256 ^ j = int (?v div 256 ^ j)" for j
    by (simp add: zdiv_int del: of_nat_add of_nat_mult)
  have e: "[0..<4] = [0, 1, 2, 3]" by (simp add: upt_rec)
  have "uint32_le_bytes (int ?v) =
        [word_of_int (int (?v div 256 ^ 0)), word_of_int (int (?v div 256 ^ 1)),
         word_of_int (int (?v div 256 ^ 2)), word_of_int (int (?v div 256 ^ 3))]"
    unfolding uint32_le_bytes_def u e by (simp only: list.map i)
  also have "\<dots> = [b0, b1, b2, b3]"
    unfolding power_0 power_one_right div_by_1 d1 d2 d3
    by (subst d0) (simp only: byte_of_sum)
  finally show ?thesis .
qed

lemma uint32_le_bytes_le32:
  "i + 4 \<le> length bs \<Longrightarrow> uint32_le_bytes (int (le32 bs i)) = take 4 (drop i bs)"
proof -
  assume h: "i + 4 \<le> length bs"
  have "take 4 (drop i bs) = [bs ! i, bs ! (i + 1), bs ! (i + 2), bs ! (i + 3)]"
  proof (rule nth_equalityI)
    show "length (take 4 (drop i bs)) = length [bs ! i, bs ! (i + 1), bs ! (i + 2), bs ! (i + 3)]"
      using h by simp
  next
    fix j assume "j < length (take 4 (drop i bs))"
    then have "j < 4" by simp
    then consider "j = 0" | "j = 1" | "j = 2" | "j = 3" by linarith
    then show "take 4 (drop i bs) ! j = [bs ! i, bs ! (i + 1), bs ! (i + 2), bs ! (i + 3)] ! j"
      using h by cases simp_all
  qed
  then show ?thesis by (simp only: le32_def uint32_le_bytes_eq)
qed

lemma concat_chunks:
  "length bs = 4 * n \<Longrightarrow> concat (map (\<lambda>k. take 4 (drop (4 * k) bs)) [0..<n]) = bs"
proof (induction n arbitrary: bs)
  case 0
  then show ?case by simp
next
  case (Suc n)
  have u: "[0..<Suc n] = 0 # map Suc [0..<n]"
    by (simp add: upt_conv_Cons map_Suc_upt del: upt_Suc)
  have "concat (map (\<lambda>k. take 4 (drop (4 * k) bs)) [0..<Suc n])
        = take 4 bs @ concat (map (\<lambda>k. take 4 (drop (4 * k) (drop 4 bs))) [0..<n])"
    unfolding u by (simp add: comp_def add.commute)
  also have "concat (map (\<lambda>k. take 4 (drop (4 * k) (drop 4 bs))) [0..<n]) = drop 4 bs"
    using Suc.prems by (intro Suc.IH) simp
  finally show ?case by simp
qed

subsection \<open>The triplet arithmetic\<close>

lemma js_rem_nonneg: "0 \<le> a \<Longrightarrow> 0 < b \<Longrightarrow> js_rem a b = a mod b"
  by (cases "a = 0") (simp_all add: js_rem_def)

lemma triplet_mid: "a < L \<Longrightarrow> (L - a + (q + a) mod L) mod L = q mod (L :: nat)"
proof -
  assume "a < L"
  then have "L - a + (q + a) = L + q" by simp
  then have "(L - a + (q + a)) mod L = q mod L" by simp
  then show ?thesis by (simp add: mod_add_right_eq)
qed

lemma base_expand:
  fixes v L :: nat
  shows "v mod L + L * ((v div L) mod L) + L * L * (v div L div L) = v"
proof -
  have "v mod L + L * ((v div L) mod L) + L * L * (v div L div L)
        = v mod L + L * ((v div L) mod L + L * (v div L div L))"
    by (simp only: distrib_left mult.assoc add.assoc)
  also have "\<dots> = v mod L + L * (v div L)" by (simp only: mod_mult_div_eq)
  also have "\<dots> = v" by (rule mod_mult_div_eq)
  finally show ?thesis .
qed

lemma triplet_roundtrip:
  fixes val :: nat
  assumes "val < 2 ^ 32"
  defines "w1 \<equiv> val mod 1626"
    and "w2 \<equiv> (val div 1626 + val mod 1626) mod 1626"
    and "w3 \<equiv> (val div 1626 div 1626 + (val div 1626 + val mod 1626) mod 1626) mod 1626"
  shows "w1 + 1626 * ((1626 - w1 + w2) mod 1626) + 1626 * 1626 * ((1626 - w2 + w3) mod 1626) = val"
proof -
  have a: "(1626 - w1 + w2) mod 1626 = (val div 1626) mod 1626"
    unfolding w1_def w2_def by (rule triplet_mid) simp
  have "(1626 - w2 + w3) mod 1626 = (val div 1626 div 1626) mod 1626"
    unfolding w3_def w2_def [symmetric] by (rule triplet_mid) (simp add: w2_def)
  moreover have "val div 1626 div 1626 < 1626"
    using assms(1) by (simp add: div_mult2_eq [symmetric] less_mult_imp_div_less)
  ultimately have b: "(1626 - w2 + w3) mod 1626 = val div 1626 div 1626" by simp
  show ?thesis
    unfolding a b unfolding w1_def by (rule base_expand)
qed

lemma decode_value_mod:
  fixes w1 x y :: int
  assumes "0 \<le> w1" "w1 < 1626" "0 \<le> x" "0 \<le> y"
  shows "js_rem (w1 + 1626 * x + 1626 * 1626 * y) 1626 = w1"
proof -
  have "0 \<le> w1 + 1626 * x + 1626 * 1626 * y" using assms by simp
  then have "js_rem (w1 + 1626 * x + 1626 * 1626 * y) 1626 = (w1 + 1626 * (x + 1626 * y)) mod 1626"
    by (simp add: js_rem_nonneg algebra_simps)
  also have "\<dots> = w1 mod 1626" by (simp only: mod_mult_self2)
  finally show ?thesis using assms by simp
qed

lemma js_rem_range: "0 \<le> a \<Longrightarrow> 0 \<le> js_rem a 1626"
  by (simp add: js_rem_nonneg)

lemma decode_group_known:
  assumes "getWordIndex s1 = Inr w1" "getWordIndex s2 = Inr w2" "getWordIndex s3 = Inr w3"
  shows "decode_group s1 s2 s3 =
           Inr (uint32_le_bytes (w1 + 1626 * js_rem ((1626 - w1) + w2) 1626
                                 + 1626 * 1626 * js_rem ((1626 - w2) + w3) 1626))"
proof -
  have r: "0 \<le> w1 \<and> w1 < 1626" "0 \<le> w2 \<and> w2 < 1626" "0 \<le> w3 \<and> w3 < 1626"
    using getWordIndex_cases [of s1] getWordIndex_cases [of s2] getWordIndex_cases [of s3] assms
    by auto
  have "js_rem (w1 + 1626 * js_rem ((1626 - w1) + w2) 1626
                + 1626 * 1626 * js_rem ((1626 - w2) + w3) 1626) 1626 = w1"
    using r by (intro decode_value_mod js_rem_range) simp_all
  then show ?thesis using assms by (simp add: decode_group_def Let_def)
qed

lemma length_uint32_le_bytes: "length (uint32_le_bytes v) = 4"
  by (simp add: uint32_le_bytes_def)

lemma decode_group_cases:
  "(\<exists>w. decode_group s1 s2 s3 = Inl (UnknownWord w) \<and> w \<in> {s1, s2, s3} \<and> w \<notin> set WORDLIST) \<or>
   (\<exists>bs. decode_group s1 s2 s3 = Inr bs \<and> length bs = 4 \<and> {s1, s2, s3} \<subseteq> set WORDLIST)"
proof -
  consider (u1) "getWordIndex s1 = Inl (UnknownWord s1)" "s1 \<notin> set WORDLIST"
    | (k1) i1 where "getWordIndex s1 = Inr i1" "s1 \<in> set WORDLIST"
    using getWordIndex_cases [of s1] by auto
  then show ?thesis
  proof cases
    case u1
    then show ?thesis by (simp add: decode_group_def)
  next
    case k1
    consider (u2) "getWordIndex s2 = Inl (UnknownWord s2)" "s2 \<notin> set WORDLIST"
      | (k2) i2 where "getWordIndex s2 = Inr i2" "s2 \<in> set WORDLIST"
      using getWordIndex_cases [of s2] by auto
    then show ?thesis
    proof cases
      case u2
      then show ?thesis using k1 by (simp add: decode_group_def)
    next
      case k2
      consider (u3) "getWordIndex s3 = Inl (UnknownWord s3)" "s3 \<notin> set WORDLIST"
        | (k3) i3 where "getWordIndex s3 = Inr i3" "s3 \<in> set WORDLIST"
        using getWordIndex_cases [of s3] by auto
      then show ?thesis
      proof cases
        case u3
        then show ?thesis using k1 k2 by (simp add: decode_group_def)
      next
        case k3
        show ?thesis
          using decode_group_known [OF k1(1) k2(1) k3(1)] k1(2) k2(2) k3(2)
          by (simp add: length_uint32_le_bytes)
      qed
    qed
  qed
qed

lemma decode_group_never_EncodingError: "decode_group s1 s2 s3 \<noteq> Inl EncodingError"
  using decode_group_cases [of s1 s2 s3] by auto

subsection \<open>Encoding one group\<close>

lemma encode_group_eq: "encode_group val = map Some (group_words val)"
  by (simp add: encode_group_def group_words_def arr_get_def length_WORDLIST Let_def)

lemma length_group_words: "length (group_words val) = 3"
  by (simp add: group_words_def)

lemma group_words_in: "set (group_words val) \<subseteq> set WORDLIST"
  by (simp add: group_words_def length_WORDLIST)

lemma decode_group_words:
  assumes "val < 2 ^ 32"
  shows "decode_group (group_words val ! 0) (group_words val ! 1) (group_words val ! 2)
         = Inr (uint32_le_bytes (int val))"
proof -
  define w1 where "w1 = val mod 1626"
  define w2 where "w2 = (val div 1626 + val mod 1626) mod 1626"
  define w3 where "w3 = (val div 1626 div 1626 + (val div 1626 + val mod 1626) mod 1626) mod 1626"
  have lt: "w1 < 1626" "w2 < 1626" "w3 < 1626" by (simp_all add: w1_def w2_def w3_def)
  have g: "group_words val ! 0 = WORDLIST ! w1" "group_words val ! 1 = WORDLIST ! w2"
    "group_words val ! 2 = WORDLIST ! w3"
    by (simp_all add: group_words_def w1_def w2_def w3_def)
  have x: "js_rem ((1626 - int w1) + int w2) 1626 = int ((1626 - w1 + w2) mod 1626)"
  proof -
    have "(1626 - int w1) + int w2 = int (1626 - w1 + w2)" using lt by simp
    then show ?thesis by (simp only: ) (simp add: js_rem_nonneg zmod_int del: of_nat_add)
  qed
  have y: "js_rem ((1626 - int w2) + int w3) 1626 = int ((1626 - w2 + w3) mod 1626)"
  proof -
    have "(1626 - int w2) + int w3 = int (1626 - w2 + w3)" using lt by simp
    then show ?thesis by (simp only: ) (simp add: js_rem_nonneg zmod_int del: of_nat_add)
  qed
  have "int w1 + 1626 * js_rem ((1626 - int w1) + int w2) 1626
          + 1626 * 1626 * js_rem ((1626 - int w2) + int w3) 1626
        = int (w1 + 1626 * ((1626 - w1 + w2) mod 1626) + 1626 * 1626 * ((1626 - w2 + w3) mod 1626))"
    unfolding x y by simp
  also have "\<dots> = int val"
    using triplet_roundtrip [OF assms] by (simp only: w1_def w2_def w3_def)
  finally have v: "int w1 + 1626 * js_rem ((1626 - int w1) + int w2) 1626
          + 1626 * 1626 * js_rem ((1626 - int w2) + int w3) 1626 = int val" .
  show ?thesis
    unfolding g
    using decode_group_known [OF getWordIndex_nth [OF lt(1)] getWordIndex_nth [OF lt(2)]
        getWordIndex_nth [OF lt(3)]]
    by (simp only: v)
qed

subsection \<open>The two loops of the mnemonic codec\<close>

lemma words_loop_eq:
  "(\<And>i. i \<in> set idx \<Longrightarrow> i + 4 \<le> length bs) \<Longrightarrow>
   words_loop bs idx acc = Inr (acc @ concat (map (\<lambda>i. map Some (group_words (le32 bs i))) idx))"
proof (induction idx arbitrary: acc)
  case Nil
  then show ?case by simp
next
  case (Cons i idx)
  have "i + 4 \<le> length bs" using Cons.prems [of i] by simp
  then have "words_loop bs (i # idx) acc = words_loop bs idx (acc @ encode_group (le32 bs i))"
    by (simp add: getUint32_le_eq)
  also have "\<dots> = Inr ((acc @ encode_group (le32 bs i))
                        @ concat (map (\<lambda>i. map Some (group_words (le32 bs i))) idx))"
    using Cons.prems by (intro Cons.IH) simp
  finally show ?case by (simp add: encode_group_eq)
qed

lemma words_loop_seed:
  assumes "length seed = 32"
  shows "words_loop seed (map (\<lambda>k. 4 * k) [0..<8]) [] = Inr (map Some (seed_words seed))"
proof -
  have "i + 4 \<le> length seed" if "i \<in> set (map (\<lambda>k. 4 * k) [0..<8])" for i
  proof -
    from that have "i \<in> (\<lambda>k. 4 * k) ` {0..<8}" by (simp only: set_map set_upt)
    then show ?thesis using assms by auto
  qed
  then have "words_loop seed (map (\<lambda>k. 4 * k) [0..<8]) []
      = Inr ([] @ concat (map (\<lambda>i. map Some (group_words (le32 seed i))) (map (\<lambda>k. 4 * k) [0..<8])))"
    by (rule words_loop_eq)
  then show ?thesis by (simp add: seed_words_def map_concat comp_def)
qed

lemma length_concat_triples:
  "(\<And>k. length (g k) = 3) \<Longrightarrow> length (concat (map g [0..<n])) = 3 * n"
  by (induction n) simp_all

lemma nth_concat_triples:
  "(\<And>k. length (g k) = 3) \<Longrightarrow> k < n \<Longrightarrow> j < 3 \<Longrightarrow>
   concat (map g [0..<n]) ! (3 * k + j) = g k ! j"
proof (induction n)
  case 0
  then show ?case by simp
next
  case (Suc n)
  have len: "length (concat (map g [0..<n])) = 3 * n"
    using Suc.prems(1) by (rule length_concat_triples)
  show ?case
  proof (cases "k < n")
    case True
    then have "3 * k + j < 3 * n" using Suc.prems(3) by simp
    then show ?thesis using Suc.IH [OF Suc.prems(1) True Suc.prems(3)] len
      by (simp add: nth_append)
  next
    case False
    then have "k = n" using Suc.prems(2) by simp
    then show ?thesis using len by (simp add: nth_append)
  qed
qed

lemma length_seed_words: "length (seed_words seed) = 24"
  using length_concat_triples [of "\<lambda>k. group_words (le32 seed (4 * k))" 8]
  by (simp add: seed_words_def length_group_words)

lemma seed_words_nth:
  "k < 8 \<Longrightarrow> j < 3 \<Longrightarrow> seed_words seed ! (3 * k + j) = group_words (le32 seed (4 * k)) ! j"
  unfolding seed_words_def
  by (rule nth_concat_triples) (simp_all add: length_group_words)

lemma seed_words_in: "set (seed_words seed) \<subseteq> set WORDLIST"
  using group_words_in by (auto simp: seed_words_def)

lemma mnemonic_loop_eq:
  "(\<And>i. i \<in> set idx \<Longrightarrow> decode_group (dw ! i) (dw ! (i + 1)) (dw ! (i + 2)) = Inr (f i)) \<Longrightarrow>
   mnemonic_loop dw idx acc = Inr (acc @ concat (map f idx))"
proof (induction idx arbitrary: acc)
  case Nil
  then show ?case by simp
next
  case (Cons i idx)
  have "decode_group (dw ! i) (dw ! (i + 1)) (dw ! (i + 2)) = Inr (f i)"
    using Cons.prems [of i] by simp
  then have "mnemonic_loop dw (i # idx) acc = mnemonic_loop dw idx (acc @ f i)" by simp
  also have "\<dots> = Inr ((acc @ f i) @ concat (map f idx))"
    using Cons.prems by (intro Cons.IH) simp
  finally show ?case by simp
qed

lemma mnemonic_loop_seed:
  assumes "length seed = 32"
  shows "mnemonic_loop (seed_words seed) (map (\<lambda>k. 3 * k) [0..<8]) [] = Inr seed"
proof -
  let ?f = "\<lambda>i. take 4 (drop (4 * (i div 3)) seed)"
  have step: "decode_group (seed_words seed ! i) (seed_words seed ! (i + 1))
                (seed_words seed ! (i + 2)) = Inr (?f i)"
    if "i \<in> set (map (\<lambda>k. 3 * k) [0..<8])" for i
  proof -
    from that have "i \<in> (\<lambda>k. 3 * k) ` {0..<8}" by (simp only: set_map set_upt)
    then obtain k where k: "i = 3 * k" "k < 8" by auto
    let ?val = "le32 seed (4 * k)"
    have w: "seed_words seed ! i = group_words ?val ! 0"
      "seed_words seed ! (i + 1) = group_words ?val ! 1"
      "seed_words seed ! (i + 2) = group_words ?val ! 2"
      using seed_words_nth [of k 0 seed] seed_words_nth [of k 1 seed]
        seed_words_nth [of k 2 seed] k by simp_all
    have "4 * k + 4 \<le> length seed" using k assms by simp
    then have "uint32_le_bytes (int ?val) = take 4 (drop (4 * k) seed)"
      by (rule uint32_le_bytes_le32)
    then show ?thesis
      unfolding w using decode_group_words [OF le32_bound, of seed "4 * k"] k by simp
  qed
  have "mnemonic_loop (seed_words seed) (map (\<lambda>k. 3 * k) [0..<8]) []
        = Inr ([] @ concat (map ?f (map (\<lambda>k. 3 * k) [0..<8])))"
    using step by (rule mnemonic_loop_eq)
  also have "map ?f (map (\<lambda>k. 3 * k) [0..<8]) = map (\<lambda>k. take 4 (drop (4 * k) seed)) [0..<8]"
    by (simp add: comp_def)
  also have "concat (map (\<lambda>k. take 4 (drop (4 * k) seed)) [0..<8]) = seed"
    using assms by (intro concat_chunks) simp
  finally show ?thesis by simp
qed

lemma mnemonic_loop_cases:
  "(\<exists>w i. mnemonic_loop dw idx acc = Inl (UnknownWord w) \<and> i \<in> set idx \<and>
          w \<in> {dw ! i, dw ! (i + 1), dw ! (i + 2)} \<and> w \<notin> set WORDLIST) \<or>
   (\<exists>bs. mnemonic_loop dw idx acc = Inr bs \<and> length bs = length acc + 4 * length idx \<and>
         (\<forall>i \<in> set idx. {dw ! i, dw ! (i + 1), dw ! (i + 2)} \<subseteq> set WORDLIST))"
proof (induction idx arbitrary: acc)
  case Nil
  then show ?case by simp
next
  case (Cons i idx)
  consider (unknown) w where "decode_group (dw ! i) (dw ! (i + 1)) (dw ! (i + 2)) = Inl (UnknownWord w)"
      "w \<in> {dw ! i, dw ! (i + 1), dw ! (i + 2)}" "w \<notin> set WORDLIST"
    | (known) bs where "decode_group (dw ! i) (dw ! (i + 1)) (dw ! (i + 2)) = Inr bs"
      "length bs = 4" "{dw ! i, dw ! (i + 1), dw ! (i + 2)} \<subseteq> set WORDLIST"
    using decode_group_cases [of "dw ! i" "dw ! (i + 1)" "dw ! (i + 2)"] by blast
  then show ?case
  proof cases
    case unknown
    then show ?thesis by (intro disjI1 exI [of _ w] exI [of _ i]) simp
  next
    case known
    have e: "mnemonic_loop dw (i # idx) acc = mnemonic_loop dw idx (acc @ bs)"
      using known(1) by simp
    from Cons.IH [of "acc @ bs"] show ?thesis
    proof
      assume "\<exists>w j. mnemonic_loop dw idx (acc @ bs) = Inl (UnknownWord w) \<and> j \<in> set idx \<and>
          w \<in> {dw ! j, dw ! (j + 1), dw ! (j + 2)} \<and> w \<notin> set WORDLIST"
      then show ?thesis unfolding e by auto
    next
      assume "\<exists>r. mnemonic_loop dw idx (acc @ bs) = Inr r \<and>
          length r = length (acc @ bs) + 4 * length idx \<and>
          (\<forall>j \<in> set idx. {dw ! j, dw ! (j + 1), dw ! (j + 2)} \<subseteq> set WORDLIST)"
      then show ?thesis unfolding e using known(2,3) by auto
    qed
  qed
qed

declare mnemonic_loop.simps [simp del] words_loop.simps [simp del]

subsection \<open>The checksum word\<close>

lemma calculateChecksumWord_Some:
  "length ws = 24 \<Longrightarrow> calculateChecksumWord (map Some ws) = Inr (Some (checksum_word ws))"
  by (simp add: calculateChecksumWord_def checksum_word_def arr_get_def comp_def Let_def image_iff)

lemma checksum_word_in: "length ws = 24 \<Longrightarrow> checksum_word ws \<in> set ws"
  by (simp add: checksum_word_def)

lemma privateKeyToMnemonic_eq:
  assumes "length seed = 32"
  shows "privateKeyToMnemonic seed
         = Inr (join '' '' (map Some (seed_words seed @ [checksum_word (seed_words seed)])))"
  by (simp add: privateKeyToMnemonic_def words_loop_seed [OF assms]
        calculateChecksumWord_Some length_seed_words)

lemma mnemonic_words:
  "split_ws (trim (join '' '' (map Some (seed_words seed @ [checksum_word (seed_words seed)]))))
   = seed_words seed @ [checksum_word (seed_words seed)]"
proof (rule words_of_join)
  show "seed_words seed @ [checksum_word (seed_words seed)] \<noteq> []" by simp
  have "checksum_word (seed_words seed) \<in> set (seed_words seed)"
    by (rule checksum_word_in) (rule length_seed_words)
  then have "set (seed_words seed @ [checksum_word (seed_words seed)]) \<subseteq> set WORDLIST"
    using seed_words_in [of seed] by auto
  then show "list_all good_word (seed_words seed @ [checksum_word (seed_words seed)])"
    unfolding list_all_iff using good_WORDLIST by blast
qed

lemma slice_0: "slice xs 0 n = take n xs"
  by (simp add: slice_def)

lemma group_index_cover:
  assumes "length dw = 24"
    and "\<forall>i \<in> set (map (\<lambda>k. 3 * k) [0..<8]). {dw ! i, dw ! (i + 1), dw ! (i + 2)} \<subseteq> S"
  shows "set dw \<subseteq> S"
proof
  fix x assume "x \<in> set dw"
  then obtain j where j: "j < 24" "x = dw ! j" using assms(1) by (metis in_set_conv_nth)
  define k where "k = j div 3"
  have k: "k < 8" using j(1) by (simp add: k_def)
  then have "3 * k \<in> (\<lambda>k. 3 * k) ` {0..<8}" by simp
  then have "3 * k \<in> set (map (\<lambda>k. 3 * k) [0..<8])" by (simp only: set_map set_upt)
  then have s: "{dw ! (3 * k), dw ! (3 * k + 1), dw ! (3 * k + 2)} \<subseteq> S"
    using assms(2) by blast
  have "j = 3 * k + j mod 3" by (simp add: k_def)
  moreover have "j mod 3 = 0 \<or> j mod 3 = 1 \<or> j mod 3 = 2" by linarith
  ultimately have "j = 3 * k \<or> j = 3 * k + 1 \<or> j = 3 * k + 2" by presburger
  then show "x \<in> S" using s j(2) by auto
qed

lemma group_index_member:
  assumes "length dw = 24" "i \<in> set (map (\<lambda>k. 3 * k) [0..<8])"
    "w \<in> {dw ! i, dw ! (i + 1), dw ! (i + 2)}"
  shows "w \<in> set dw"
proof -
  from assms(2) have "i \<in> (\<lambda>k. 3 * k) ` {0..<8}" by (simp only: set_map set_upt)
  then have "i + 2 < 24" by auto
  then show ?thesis using assms(1,3) by auto
qed

lemma mnemonicToPrivateKey_cases:
  assumes "length (split_ws (trim m)) = 25"
  shows "(\<exists>w. mnemonicToPrivateKey m = Inl (UnknownWord w) \<and>
            w \<in> set (take 24 (split_ws (trim m))) \<and> w \<notin> set WORDLIST) \<or>
         (\<exists>bs. mnemonicToPrivateKey m = Inr bs \<and> length bs = 32 \<and>
            set (take 24 (split_ws (trim m))) \<subseteq> set WORDLIST)"
proof -
  define dw where "dw = take 24 (split_ws (trim m))"
  define idx where "idx = map (\<lambda>k. 3 * k) [0..<8]"
  have len: "length dw = 24" using assms by (simp add: dw_def)
  have lidx: "length idx = 8" by (simp add: idx_def)
  have e: "mnemonicToPrivateKey m = mnemonic_loop dw idx []"
    unfolding mnemonicToPrivateKey_def Let_def slice_0 dw_def idx_def
    by (simp only: assms simp_thms if_False)
  from mnemonic_loop_cases [of dw idx "[]"] show ?thesis
  proof (elim disjE exE conjE)
    fix w i
    assume wi: "mnemonic_loop dw idx [] = Inl (UnknownWord w)" "i \<in> set idx"
      "w \<in> {dw ! i, dw ! (i + 1), dw ! (i + 2)}" "w \<notin> set WORDLIST"
    have "w \<in> set dw" using len wi(2,3) unfolding idx_def by (rule group_index_member)
    then have "mnemonicToPrivateKey m = Inl (UnknownWord w) \<and>
        w \<in> set (take 24 (split_ws (trim m))) \<and> w \<notin> set WORDLIST"
      using wi(1,4) by (simp only: e dw_def simp_thms)
    then show ?thesis by blast
  next
    fix bs
    assume bs: "mnemonic_loop dw idx [] = Inr bs"
      "length bs = length ([] :: byte list) + 4 * length idx"
      "\<forall>i \<in> set idx. {dw ! i, dw ! (i + 1), dw ! (i + 2)} \<subseteq> set WORDLIST"
    have "set dw \<subseteq> set WORDLIST" using len bs(3) unfolding idx_def by (rule group_index_cover)
    moreover have "length bs = 32" using bs(2) lidx by simp
    ultimately have "mnemonicToPrivateKey m = Inr bs \<and> length bs = 32 \<and>
        set (take 24 (split_ws (trim m))) \<subseteq> set WORDLIST"
      using bs(1) by (simp only: e dw_def simp_thms)
    then show ?thesis by blast
  qed
qed

lemma verifyMnemonicChecksum_eq:
  "verifyMnemonicChecksum m =
     Inr (length (split_ws (trim m)) = 25 \<and>
          split_ws (trim m) ! 24 = checksum_word (take 24 (split_ws (trim m))))"
proof (cases "length (split_ws (trim m)) = 25")
  case False
  then show ?thesis by (simp add: verifyMnemonicChecksum_def Let_def)
next
  case True
  then have "calculateChecksumWord (map Some (slice (split_ws (trim m)) 0 24))
      = Inr (Some (checksum_word (take 24 (split_ws (trim m)))))"
    by (simp add: slice_0 calculateChecksumWord_Some)
  then show ?thesis using True
    by (auto simp: verifyMnemonicChecksum_def Let_def arr_get_def)
qed

subsection \<open>Concrete mnemonics\<close>

lemma split_abbey24:
  "split_ws (trim ''abbey abbey abbey abbey abbey abbey abbey abbey abbey abbey abbey abbey abbey abbey abbey abbey abbey abbey abbey abbey abbey abbey abbey abbey'') = replicate 24 ''abbey''"
  by (simp add: trim_def is_space_def numeral_eq_Suc)

lemma split_abbey25:
  "split_ws (trim ''abbey abbey abbey abbey abbey abbey abbey abbey abbey abbey abbey abbey abbey abbey abbey abbey abbey abbey abbey abbey abbey abbey abbey abbey abbey'') = replicate 25 ''abbey''"
  by (simp add: trim_def is_space_def numeral_eq_Suc)

lemma split_abbey24_word1:
  "split_ws (trim ''abbey abbey abbey abbey abbey abbey abbey abbey abbey abbey abbey abbey abbey abbey abbey abbey abbey abbey abbey abbey abbey abbey abbey abbey word1'') = replicate 24 ''abbey'' @ [''word1'']"
  by (simp add: trim_def is_space_def numeral_eq_Suc)

lemma split_word1_25:
  "split_ws (trim ''word1 word1 word1 word1 word1 word1 word1 word1 word1 word1 word1 word1 word1 word1 word1 word1 word1 word1 word1 word1 word1 word1 word1 word1 word1'') = replicate 25 ''word1''"
  by (simp add: trim_def is_space_def numeral_eq_Suc)

lemma abbey_in_WORDLIST: "''abbey'' \<in> set WORDLIST"
  by (simp add: WORDLIST_def)

lemma word1_not_in_WORDLIST: "''word1'' \<notin> set WORDLIST"
proof
  assume "''word1'' \<in> set WORDLIST"
  then have "plain ''word1''" using plain_WORDLIST by (simp add: list_all_iff)
  then show False by (simp add: plain_def)
qed

lemma checksum_word_replicate: "checksum_word (replicate 24 w) = w"
  by (simp add: checksum_word_def)

subsection \<open>Hexadecimal\<close>

lemma hex_digit_cases:
  assumes "a < 16"
  shows "hex_value (hex_digit a) = Some a \<and> \<not> is_space (hex_digit a) \<and>
         hex_digit a \<noteq> CHR ''-'' \<and> hex_digit a \<noteq> CHR ''+'' \<and>
         hex_digit a \<noteq> CHR ''x'' \<and> hex_digit a \<noteq> CHR ''X''"
proof (cases "a < 8")
  case True
  then consider "a = 0" | "a = 1" | "a = 2" | "a = 3" | "a = 4" | "a = 5" | "a = 6" | "a = 7"
    by linarith
  then show ?thesis
    by cases (simp_all add: hex_digit_def hex_value_def is_space_def)
next
  case False
  then consider "a = 8" | "a = 9" | "a = 10" | "a = 11" | "a = 12" | "a = 13" | "a = 14"
    | "a = 15" using assms by linarith
  then show ?thesis
    by cases (simp_all add: hex_digit_def hex_value_def is_space_def)
qed

lemma parseInt16_pair:
  assumes "a < 16" "b < 16"
  shows "parseInt16 [hex_digit a, hex_digit b] = Some (int (16 * a + b))"
proof -
  note A = hex_digit_cases [OF assms(1)] and B = hex_digit_cases [OF assms(2)]
  have s: "strip_0x [hex_digit a, hex_digit b] = [hex_digit a, hex_digit b]"
    using B by (simp add: strip_0x_def)
  have "hex_digits_value [hex_digit a, hex_digit b] = Some (int (16 * a + b))"
    using A B by (simp add: hex_digits_value_def)
  then show ?thesis using A s by (simp add: parseInt16_def)
qed

lemma byte_to_hex_parse: "to_uint8 (parseInt16 (byte_to_hex b)) = b"
proof -
  have "unat b div 16 < 16" using byte_less [of b] by simp
  moreover have "unat b mod 16 < 16" by simp
  ultimately have "parseInt16 (byte_to_hex b) = Some (int (16 * (unat b div 16) + unat b mod 16))"
    unfolding byte_to_hex_def by (rule parseInt16_pair)
  then show ?thesis by (simp add: to_uint8_def)
qed

lemma length_bytesToHex: "length (bytesToHex bs) = 2 * length bs"
  by (induction bs) (simp_all add: bytesToHex_def byte_to_hex_def)

lemma length_hexToBytes: "length (hexToBytes h) = length h div 2"
  by (simp add: hexToBytes_def)

lemma bytesToHex_chunk:
  "i < length bs \<Longrightarrow> take 2 (drop (i * 2) (bytesToHex bs)) = byte_to_hex (bs ! i)"
proof (induction bs arbitrary: i)
  case Nil
  then show ?case by simp
next
  case (Cons b bs)
  show ?case
  proof (cases i)
    case 0
    then show ?thesis by (simp add: bytesToHex_def byte_to_hex_def)
  next
    case (Suc j)
    then have "take 2 (drop (j * 2) (bytesToHex bs)) = byte_to_hex (bs ! j)"
      using Cons by simp
    then show ?thesis using Suc by (simp add: bytesToHex_def byte_to_hex_def)
  qed
qed

lemma hexToBytes_bytesToHex: "hexToBytes (bytesToHex bs) = bs"
proof (rule nth_equalityI)
  show "length (hexToBytes (bytesToHex bs)) = length bs"
    by (simp add: length_hexToBytes length_bytesToHex)
next
  fix i assume "i < length (hexToBytes (bytesToHex bs))"
  then have i: "i < length bs" by (simp add: length_hexToBytes length_bytesToHex)
  then show "hexToBytes (bytesToHex bs) ! i = bs ! i"
    by (simp add: hexToBytes_def length_bytesToHex bytesToHex_chunk byte_to_hex_parse)
qed

subsection \<open>The address layout\<close>

lemma varint_spec_PREFIX: "varint_spec 0x198004 = [0x84, 0x80, 0x66]"
  by (simp add: varint_spec.simps)

lemma publicKeyToAddress_eq:
  "publicKeyToAddress keccak256 pk =
     base58Encode (([0x84, 0x80, 0x66] @ pk)
                   @ take 4 (hexToBytes (keccak256 ([0x84, 0x80, 0x66] @ pk)))
                   @ replicate (4 - length (take 4 (hexToBytes (keccak256 ([0x84, 0x80, 0x66] @ pk))))) 0)"
  by (simp add: publicKeyToAddress_def encodeVarint_PREFIX ua_set_def slice_0 Let_def
        replicate_add [symmetric] min_def)

lemma publicKeyToAddress_total: "\<exists>s. publicKeyToAddress keccak256 pk = Inr s"
  unfolding publicKeyToAddress_eq using base58Encode_shape by blast

lemma publicKeyToAddress_digest:
  assumes "4 \<le> length (H ([0x84, 0x80, 0x66] @ pk))"
  shows "publicKeyToAddress (\<lambda>bs. bytesToHex (H bs)) pk =
           base58Encode ([0x84, 0x80, 0x66] @ pk @ take 4 (H ([0x84, 0x80, 0x66] @ pk)))"
proof -
  let ?c = "take 4 (H ([0x84, 0x80, 0x66] @ pk))"
  have "length ?c = 4" using assms by simp
  then have "replicate (4 - length ?c) (0 :: byte) = []" by simp
  then show ?thesis
    by (simp only: publicKeyToAddress_eq hexToBytes_bytesToHex) simp
qed

lemma generateEd25519Keypair_eq:
  "generateEd25519Keypair base_multiply keyBytes ensureValid =
     (if length keyBytes < 32 then Inl TypeError
      else if 1 \<le> (if ensureValid \<and> curveOrder \<le> le_value (take 32 keyBytes)
                    then le_value (take 32 keyBytes) mod curveOrder
                    else le_value (take 32 keyBytes))
              \<and> (if ensureValid \<and> curveOrder \<le> le_value (take 32 keyBytes)
                    then le_value (take 32 keyBytes) mod curveOrder
                    else le_value (take 32 keyBytes)) < curveOrder
      then Inr \<lparr>publicKeyBytes =
                  base_multiply (if ensureValid \<and> curveOrder \<le> le_value (take 32 keyBytes)
                                 then le_value (take 32 keyBytes) mod curveOrder
                                 else le_value (take 32 keyBytes)),
                privateKeyBytes = keyBytes\<rparr>
      else Inl RangeError)"
  by (simp add: generateEd25519Keypair_def Point_BASE_multiply_def bytesToScalar_eq Let_def)

lemma generateEd25519Keypair_import:
  assumes "length keyBytes = 32"
  shows "generateEd25519Keypair base_multiply keyBytes False =
     (if 1 \<le> le_value keyBytes \<and> le_value keyBytes < curveOrder
      then Inr \<lparr>publicKeyBytes = base_multiply (le_value keyBytes), privateKeyBytes = keyBytes\<rparr>
      else Inl RangeError)"
  using assms by (simp add: generateEd25519Keypair_eq)

lemma bytesToHex_replicate_FF: "bytesToHex (replicate n 0xFF) = concat (replicate n ''ff'')"
  by (induction n) (simp_all add: bytesToHex_def byte_to_hex_def hex_digit_def)

lemma concat_ff_32:
  "concat (replicate 32 ''ff'') = ''ffffffffffffffffffffffffffffffffffffffffffffffffffffffffffffffff''"
  by (simp add: numeral_eq_Suc)

lemma bytesToHex_FF:
  "bytesToHex (replicate 32 0xFF) = ''ffffffffffffffffffffffffffffffffffffffffffffffffffffffffffffffff''"
  by (simp only: bytesToHex_replicate_FF concat_ff_32)


lemma bytesToHex_replicate_00: "bytesToHex (replicate n 0) = concat (replicate n ''00'')"
  by (induction n) (simp_all add: bytesToHex_def byte_to_hex_def hex_digit_def)

lemma concat_00_32:
  "concat (replicate 32 ''00'') = ''0000000000000000000000000000000000000000000000000000000000000000''"
  by (simp add: numeral_eq_Suc)

lemma bytesToHex_00:
  "bytesToHex (replicate 32 0) = ''0000000000000000000000000000000000000000000000000000000000000000''"
  by (simp only: bytesToHex_replicate_00 concat_00_32)

lemma concat_00_31:
  "concat (replicate 31 ''00'') = ''00000000000000000000000000000000000000000000000000000000000000''"
  by (simp add: numeral_eq_Suc)

lemma bytesToHex_01:
  "bytesToHex (1 # replicate 31 0) = ''0100000000000000000000000000000000000000000000000000000000000000''"
proof -
  have "bytesToHex (1 # replicate 31 0) = ''01'' @ bytesToHex (replicate 31 0)"
    by (simp add: bytesToHex_def byte_to_hex_def hex_digit_def)
  then show ?thesis by (simp only: bytesToHex_replicate_00 concat_00_31) simp
qed

subsection \<open>Wallet generation\<close>

lemma generateWallet_succeeds_before_bound:
  assumes "\<And>i. i < k \<Longrightarrow> invalid_draw random i" and "k < 999"
    and "random k = Inr bs" and "length bs = 32"
    and "1 \<le> le_value bs" and "le_value bs < curveOrder"
  shows "\<exists>addr phrase.
           generateWallet random base_multiply keccak256 =
             Inr \<lparr>address = addr, privateKey = bytesToHex bs,
                  publicKey = bytesToHex (base_multiply (le_value bs)), mnemonic = phrase\<rparr>"
proof -
  have sc: "bytesToScalar bs = Inr (le_value bs)" using assms(4) by (simp add: bytesToScalar_eq)
  have "generateWallet_loop random 0 = generateWallet_loop random (0 + k)"
    using assms(1,2) by (intro generateWallet_loop_skip_many) simp_all
  also have "\<dots> = Inr (bs, le_value bs, k + 1)"
    using generateWallet_loop_stop [of random k bs "le_value bs"] assms(3,6) sc by simp
  finally have l: "generateWallet_loop random 0 = Inr (bs, le_value bs, k + 1)" .
  obtain phrase where m: "privateKeyToMnemonic bs = Inr phrase"
    using privateKeyToMnemonic_eq [OF assms(4)] by blast
  have kp: "generateEd25519Keypair base_multiply bs True
            = Inr \<lparr>publicKeyBytes = base_multiply (le_value bs), privateKeyBytes = bs\<rparr>"
    using assms(4,5,6) by (simp add: generateEd25519Keypair_eq)
  obtain addr where a: "publicKeyToAddress keccak256 (base_multiply (le_value bs)) = Inr addr"
    using publicKeyToAddress_total by blast
  have "generateWallet random base_multiply keccak256 =
             Inr \<lparr>address = addr, privateKey = bytesToHex bs,
                  publicKey = bytesToHex (base_multiply (le_value bs)), mnemonic = phrase\<rparr>"
    using assms(2) by (simp add: generateWallet_def l m kp a)
  then show ?thesis by blast
qed

text \<open>
  A draw of scalar 0 is below the curve order and ends the loop, and the library then
  refuses the scalar.
\<close>

lemma generateWallet_zero_draw:
  assumes "\<And>i. i < k \<Longrightarrow> invalid_draw random i" and "k < 999"
    and "random k = Inr bs" and "length bs = 32" and "le_value bs = 0"
  shows "generateWallet random base_multiply keccak256 = Inl RangeError"
proof -
  have sc: "bytesToScalar bs = Inr (le_value bs)" using assms(4) by (simp add: bytesToScalar_eq)
  have "generateWallet_loop random 0 = generateWallet_loop random (0 + k)"
    using assms(1,2) by (intro generateWallet_loop_skip_many) simp_all
  also have "\<dots> = Inr (bs, le_value bs, k + 1)"
    using generateWallet_loop_stop [of random k bs "le_value bs"] assms(3,5) sc
    by (simp add: curveOrder_def)
  finally have l: "generateWallet_loop random 0 = Inr (bs, le_value bs, k + 1)" .
  obtain phrase where m: "privateKeyToMnemonic bs = Inr phrase"
    using privateKeyToMnemonic_eq [OF assms(4)] by blast
  have kp: "generateEd25519Keypair base_multiply bs True = Inl RangeError"
    using assms(4,5) by (simp add: generateEd25519Keypair_eq curveOrder_def)
  show ?thesis using assms(2) by (simp add: generateWallet_def l m kp)
qed

subsection \<open>Import\<close>

lemma importFromPrivateKey_eq:
  assumes "length privateKeyHex = 64"
  shows "importFromPrivateKey base_multiply keccak256 privateKeyHex =
     (if 1 \<le> le_value (hexToBytes privateKeyHex) \<and> le_value (hexToBytes privateKeyHex) < curveOrder
      then bind (publicKeyToAddress keccak256 (base_multiply (le_value (hexToBytes privateKeyHex))))
             (\<lambda>addr. Inr \<lparr>address = addr, privateKey = privateKeyHex,
                publicKey = bytesToHex (base_multiply (le_value (hexToBytes privateKeyHex))),
                mnemonic = join '' '' (map Some (seed_words (hexToBytes privateKeyHex)
                             @ [checksum_word (seed_words (hexToBytes privateKeyHex))]))\<rparr>)
      else Inl RangeError)"
proof -
  have len: "length (hexToBytes privateKeyHex) = 32" using assms by (simp add: length_hexToBytes)
  show ?thesis
    by (simp add: importFromPrivateKey_def Let_def generateEd25519Keypair_import [OF len]
          privateKeyToMnemonic_eq [OF len])
qed

lemma importFromMnemonic_zero_scalar:
  assumes "verifyMnemonicChecksum phrase = Inr True"
    and "mnemonicToPrivateKey phrase = Inr keyBytes" and "length keyBytes = 32"
    and "le_value keyBytes = 0 \<or> curveOrder \<le> le_value keyBytes"
  shows "importFromMnemonic base_multiply keccak256 phrase = Inl RangeError"
  using assms by (auto simp: importFromMnemonic_def generateEd25519Keypair_import)

section \<open>The claims\<close>

text \<open>
  Claim C1. For every seed of 32 bytes \<open>privateKeyToMnemonic\<close> returns a mnemonic whose
  first 24 words are the words of the 8 groups of the seed, by the formulas of
  \<open>group_words\<close>, and \<open>mnemonicToPrivateKey\<close> on that mnemonic returns the seed.
\<close>

theorem mnemonic_roundtrip:
  assumes "length seed = 32"
  shows "\<exists>m. privateKeyToMnemonic seed = Inr m \<and>
             take 24 (split_ws (trim m)) = seed_words seed \<and>
             mnemonicToPrivateKey m = Inr seed"
proof -
  let ?ws = "seed_words seed @ [checksum_word (seed_words seed)]"
  let ?m = "join '' '' (map Some ?ws)"
  have w: "split_ws (trim ?m) = ?ws" by (rule mnemonic_words)
  have "length ?ws = 25" by (simp add: length_seed_words)
  moreover have "take 24 ?ws = seed_words seed" by (simp add: length_seed_words)
  ultimately have "mnemonicToPrivateKey ?m
      = mnemonic_loop (seed_words seed) (map (\<lambda>k. 3 * k) [0..<8]) []"
    unfolding mnemonicToPrivateKey_def Let_def slice_0 w
    by (simp only: simp_thms if_False)
  then have "mnemonicToPrivateKey ?m = Inr seed"
    by (simp only: mnemonic_loop_seed [OF assms])
  moreover have "take 24 (split_ws (trim ?m)) = seed_words seed"
    unfolding w by (simp add: length_seed_words)
  ultimately show ?thesis using privateKeyToMnemonic_eq [OF assms] by simp
qed

text \<open>The round trip on the seed of 32 zero bytes.\<close>

theorem mnemonic_roundtrip_witness:
  "length (replicate 32 (0 :: byte)) = 32 \<and>
   (\<exists>m. privateKeyToMnemonic (replicate 32 0) = Inr m \<and>
        take 24 (split_ws (trim m)) = seed_words (replicate 32 0) \<and>
        mnemonicToPrivateKey m = Inr (replicate 32 0))"
  using mnemonic_roundtrip [of "replicate 32 0"] by simp

text \<open>
  Claim C2. For every seed of 32 bytes the mnemonic that \<open>privateKeyToMnemonic\<close> returns
  passes \<open>verifyMnemonicChecksum\<close>: it has 25 words, the last one is the checksum word
  of the first 24, and it is one of those 24.
\<close>

theorem generated_mnemonic_checksum:
  assumes "length seed = 32"
  shows "\<exists>m. privateKeyToMnemonic seed = Inr m \<and>
             verifyMnemonicChecksum m = Inr True \<and>
             length (split_ws (trim m)) = 25 \<and>
             split_ws (trim m) ! 24 = checksum_word (take 24 (split_ws (trim m))) \<and>
             split_ws (trim m) ! 24 \<in> set (take 24 (split_ws (trim m)))"
proof -
  let ?ws = "seed_words seed @ [checksum_word (seed_words seed)]"
  let ?m = "join '' '' (map Some ?ws)"
  have w: "split_ws (trim ?m) = ?ws" by (rule mnemonic_words)
  have len: "length ?ws = 25" by (simp add: length_seed_words)
  have t: "take 24 ?ws = seed_words seed" by (simp add: length_seed_words)
  have n: "?ws ! 24 = checksum_word (seed_words seed)"
    by (simp add: nth_append length_seed_words)
  have "checksum_word (seed_words seed) \<in> set (seed_words seed)"
    by (rule checksum_word_in) (rule length_seed_words)
  then have "verifyMnemonicChecksum ?m = Inr True \<and> length (split_ws (trim ?m)) = 25 \<and>
        split_ws (trim ?m) ! 24 = checksum_word (take 24 (split_ws (trim ?m))) \<and>
        split_ws (trim ?m) ! 24 \<in> set (take 24 (split_ws (trim ?m)))"
    unfolding verifyMnemonicChecksum_eq w t n using len by simp
  then show ?thesis using privateKeyToMnemonic_eq [OF assms] by blast
qed

text \<open>The checksum of the mnemonic of the seed of 32 zero bytes.\<close>

theorem generated_mnemonic_checksum_witness:
  "length (replicate 32 (0 :: byte)) = 32 \<and>
   (\<exists>m. privateKeyToMnemonic (replicate 32 0) = Inr m \<and>
        verifyMnemonicChecksum m = Inr True \<and>
        length (split_ws (trim m)) = 25 \<and>
        split_ws (trim m) ! 24 = checksum_word (take 24 (split_ws (trim m))) \<and>
        split_ws (trim m) ! 24 \<in> set (take 24 (split_ws (trim m))))"
  using generated_mnemonic_checksum [of "replicate 32 0"] by simp

text \<open>
  Claim C3 fails on the code. \<open>prefix\<close> is \<open>decoded.slice(0, 2)\<close>, two bytes, so
  \<open>prefix[2]\<close> is \<open>undefined\<close>, the test \<open>prefix[2] !== 0x04\<close> holds for every
  decoded buffer, and \<open>isValidWalletAddress\<close> returns \<open>false\<close> on every string,
  whatever the Base58 decoder and the hash function are: also on the addresses that
  \<open>publicKeyToAddress\<close> produces.
\<close>

theorem isValidWalletAddress_never_true:
  "isValidWalletAddress bs58_decode cn_fast_hash addr = False"
proof -
  have "ua_get (slice decoded 0 2) 2 = None" for decoded
    by (simp add: ua_get_def slice_def)
  then show ?thesis
    by (simp add: isValidWalletAddress_def bind_def Let_def split: sum.splits)
qed


text \<open>
  An input that passes every test before the prefix test: a string of 54 characters that
  starts with \<open>PAS\<close>, decoded to 39 bytes that start with \<open>0x19, 0x80, 0x04\<close>.
\<close>

theorem isValidWalletAddress_never_true_witness:
  "isValidWalletAddress (\<lambda>s. Inr (0x19 # 0x80 # 0x04 # replicate 36 0))
     (\<lambda>b. Inr (replicate 32 0)) (''PAS'' @ replicate 51 CHR ''1'') = False"
  by (rule isValidWalletAddress_never_true)

text \<open>
  Claim C4, as amended. \<open>importFromMnemonic\<close> verifies the checksum before anything
  else, and \<open>verifyMnemonicChecksum\<close> is false on a wrong number of words. So a mnemonic
  that does not have 25 words (24 words, for one) fails with \<open>InvalidChecksum\<close>; a
  mnemonic of 25 words whose last word is not the checksum word of the first 24 fails
  with \<open>InvalidChecksum\<close>, whatever its words are; and a mnemonic of 25 words with the
  right checksum word and a word outside the word list among the first 24 fails with
  \<open>UnknownWord\<close> for such a word.
\<close>

theorem importFromMnemonic_errors:
  "(length (split_ws (trim phrase)) \<noteq> 25
      \<longrightarrow> importFromMnemonic base_multiply keccak256 phrase = Inl InvalidChecksum) \<and>
   (length (split_ws (trim phrase)) = 25 \<and>
    split_ws (trim phrase) ! 24 \<noteq> checksum_word (take 24 (split_ws (trim phrase)))
      \<longrightarrow> importFromMnemonic base_multiply keccak256 phrase = Inl InvalidChecksum) \<and>
   (length (split_ws (trim phrase)) = 25 \<and>
    split_ws (trim phrase) ! 24 = checksum_word (take 24 (split_ws (trim phrase))) \<and>
    \<not> set (take 24 (split_ws (trim phrase))) \<subseteq> set WORDLIST
      \<longrightarrow> (\<exists>w. w \<in> set (take 24 (split_ws (trim phrase))) \<and> w \<notin> set WORDLIST \<and>
               importFromMnemonic base_multiply keccak256 phrase = Inl (UnknownWord w)))"
proof (intro conjI impI)
  assume "length (split_ws (trim phrase)) \<noteq> 25"
  then show "importFromMnemonic base_multiply keccak256 phrase = Inl InvalidChecksum"
    by (simp add: importFromMnemonic_def verifyMnemonicChecksum_eq)
next
  assume "length (split_ws (trim phrase)) = 25 \<and>
    split_ws (trim phrase) ! 24 \<noteq> checksum_word (take 24 (split_ws (trim phrase)))"
  then show "importFromMnemonic base_multiply keccak256 phrase = Inl InvalidChecksum"
    by (simp add: importFromMnemonic_def verifyMnemonicChecksum_eq)
next
  assume h: "length (split_ws (trim phrase)) = 25 \<and>
    split_ws (trim phrase) ! 24 = checksum_word (take 24 (split_ws (trim phrase))) \<and>
    \<not> set (take 24 (split_ws (trim phrase))) \<subseteq> set WORDLIST"
  then have len: "length (split_ws (trim phrase)) = 25" by simp
  from mnemonicToPrivateKey_cases [OF len] h
  obtain w where w: "mnemonicToPrivateKey phrase = Inl (UnknownWord w)"
    "w \<in> set (take 24 (split_ws (trim phrase)))" "w \<notin> set WORDLIST" by blast
  have "importFromMnemonic base_multiply keccak256 phrase = Inl (UnknownWord w)"
    using h w(1) by (simp add: importFromMnemonic_def verifyMnemonicChecksum_eq)
  then show "\<exists>w. w \<in> set (take 24 (split_ws (trim phrase))) \<and> w \<notin> set WORDLIST \<and>
               importFromMnemonic base_multiply keccak256 phrase = Inl (UnknownWord w)"
    using w(2,3) by blast
qed

text \<open>
  The three cases: 24 words; 25 words whose last word is not the checksum word; 25 times
  a word that is not in the list.
\<close>

theorem importFromMnemonic_errors_witness:
  "importFromMnemonic (\<lambda>s. replicate 32 0) (\<lambda>bs. replicate 64 CHR ''0'') ''abbey abbey abbey abbey abbey abbey abbey abbey abbey abbey abbey abbey abbey abbey abbey abbey abbey abbey abbey abbey abbey abbey abbey abbey''
     = Inl InvalidChecksum \<and>
   importFromMnemonic (\<lambda>s. replicate 32 0) (\<lambda>bs. replicate 64 CHR ''0'') ''abbey abbey abbey abbey abbey abbey abbey abbey abbey abbey abbey abbey abbey abbey abbey abbey abbey abbey abbey abbey abbey abbey abbey abbey word1''
     = Inl InvalidChecksum \<and>
   importFromMnemonic (\<lambda>s. replicate 32 0) (\<lambda>bs. replicate 64 CHR ''0'') ''word1 word1 word1 word1 word1 word1 word1 word1 word1 word1 word1 word1 word1 word1 word1 word1 word1 word1 word1 word1 word1 word1 word1 word1 word1''
     = Inl (UnknownWord ''word1'')"
proof -
  let ?B = "\<lambda>s::nat. replicate 32 (0 :: byte)"
  let ?K = "\<lambda>bs::byte list. replicate 64 CHR ''0''"
  have a: "length (split_ws (trim ''abbey abbey abbey abbey abbey abbey abbey abbey abbey abbey abbey abbey abbey abbey abbey abbey abbey abbey abbey abbey abbey abbey abbey abbey'')) \<noteq> 25"
    by (simp only: split_abbey24 length_replicate)
  have t: "take 24 (replicate 24 ''abbey'' @ [''word1'']) = replicate 24 ''abbey''" by simp
  have n: "(replicate 24 ''abbey'' @ [''word1'']) ! 24 = ''word1''" by (simp add: nth_append)
  have b: "length (split_ws (trim ''abbey abbey abbey abbey abbey abbey abbey abbey abbey abbey abbey abbey abbey abbey abbey abbey abbey abbey abbey abbey abbey abbey abbey abbey word1'')) = 25 \<and>
      split_ws (trim ''abbey abbey abbey abbey abbey abbey abbey abbey abbey abbey abbey abbey abbey abbey abbey abbey abbey abbey abbey abbey abbey abbey abbey abbey word1'') ! 24 \<noteq> checksum_word (take 24 (split_ws (trim ''abbey abbey abbey abbey abbey abbey abbey abbey abbey abbey abbey abbey abbey abbey abbey abbey abbey abbey abbey abbey abbey abbey abbey abbey word1'')))"
    unfolding split_abbey24_word1 t n checksum_word_replicate by simp
  have t2: "take 24 (replicate 25 ''word1'') = replicate 24 ''word1''" by simp
  have c: "length (split_ws (trim ''word1 word1 word1 word1 word1 word1 word1 word1 word1 word1 word1 word1 word1 word1 word1 word1 word1 word1 word1 word1 word1 word1 word1 word1 word1'')) = 25 \<and>
      split_ws (trim ''word1 word1 word1 word1 word1 word1 word1 word1 word1 word1 word1 word1 word1 word1 word1 word1 word1 word1 word1 word1 word1 word1 word1 word1 word1'') ! 24 = checksum_word (take 24 (split_ws (trim ''word1 word1 word1 word1 word1 word1 word1 word1 word1 word1 word1 word1 word1 word1 word1 word1 word1 word1 word1 word1 word1 word1 word1 word1 word1''))) \<and>
      \<not> set (take 24 (split_ws (trim ''word1 word1 word1 word1 word1 word1 word1 word1 word1 word1 word1 word1 word1 word1 word1 word1 word1 word1 word1 word1 word1 word1 word1 word1 word1''))) \<subseteq> set WORDLIST"
    unfolding split_word1_25 t2 checksum_word_replicate
    using word1_not_in_WORDLIST by simp
  have s: "set (take 24 (split_ws (trim ''word1 word1 word1 word1 word1 word1 word1 word1 word1 word1 word1 word1 word1 word1 word1 word1 word1 word1 word1 word1 word1 word1 word1 word1 word1''))) = {''word1''}"
    unfolding split_word1_25 t2 by simp
  from a importFromMnemonic_errors [of "''abbey abbey abbey abbey abbey abbey abbey abbey abbey abbey abbey abbey abbey abbey abbey abbey abbey abbey abbey abbey abbey abbey abbey abbey''" ?B ?K]
  have r1: "importFromMnemonic ?B ?K ''abbey abbey abbey abbey abbey abbey abbey abbey abbey abbey abbey abbey abbey abbey abbey abbey abbey abbey abbey abbey abbey abbey abbey abbey'' = Inl InvalidChecksum" by blast
  from b importFromMnemonic_errors [of "''abbey abbey abbey abbey abbey abbey abbey abbey abbey abbey abbey abbey abbey abbey abbey abbey abbey abbey abbey abbey abbey abbey abbey abbey word1''" ?B ?K]
  have r2: "importFromMnemonic ?B ?K ''abbey abbey abbey abbey abbey abbey abbey abbey abbey abbey abbey abbey abbey abbey abbey abbey abbey abbey abbey abbey abbey abbey abbey abbey word1'' = Inl InvalidChecksum" by blast
  from c importFromMnemonic_errors [of "''word1 word1 word1 word1 word1 word1 word1 word1 word1 word1 word1 word1 word1 word1 word1 word1 word1 word1 word1 word1 word1 word1 word1 word1 word1''" ?B ?K]
  obtain w where "w \<in> set (take 24 (split_ws (trim ''word1 word1 word1 word1 word1 word1 word1 word1 word1 word1 word1 word1 word1 word1 word1 word1 word1 word1 word1 word1 word1 word1 word1 word1 word1'')))"
    "importFromMnemonic ?B ?K ''word1 word1 word1 word1 word1 word1 word1 word1 word1 word1 word1 word1 word1 word1 word1 word1 word1 word1 word1 word1 word1 word1 word1 word1 word1'' = Inl (UnknownWord w)" by blast
  then have r3: "importFromMnemonic ?B ?K ''word1 word1 word1 word1 word1 word1 word1 word1 word1 word1 word1 word1 word1 word1 word1 word1 word1 word1 word1 word1 word1 word1 word1 word1 word1'' = Inl (UnknownWord ''word1'')"
    unfolding s by simp
  from r1 r2 r3 show ?thesis by (intro conjI)
qed

text \<open>
  Claim C4 as stated fails: on 24 words the error is \<open>InvalidChecksum\<close>, not
  \<open>InvalidLength\<close>; and on 25 words whose only word outside the list is the last one
  the error is \<open>InvalidChecksum\<close>, not \<open>UnknownWord\<close>.
\<close>

theorem importFromMnemonic_counterexample:
  "importFromMnemonic (\<lambda>s. replicate 32 0) (\<lambda>bs. replicate 64 CHR ''0'') ''abbey abbey abbey abbey abbey abbey abbey abbey abbey abbey abbey abbey abbey abbey abbey abbey abbey abbey abbey abbey abbey abbey abbey abbey''
     = Inl InvalidChecksum \<and>
   Inl InvalidChecksum \<noteq> (Inl InvalidLength :: error + WalletData) \<and>
   importFromMnemonic (\<lambda>s. replicate 32 0) (\<lambda>bs. replicate 64 CHR ''0'') ''abbey abbey abbey abbey abbey abbey abbey abbey abbey abbey abbey abbey abbey abbey abbey abbey abbey abbey abbey abbey abbey abbey abbey abbey word1''
     = Inl InvalidChecksum \<and>
   Inl InvalidChecksum \<noteq> (Inl (UnknownWord ''word1'') :: error + WalletData)"
proof -
  have "length (split_ws (trim ''abbey abbey abbey abbey abbey abbey abbey abbey abbey abbey abbey abbey abbey abbey abbey abbey abbey abbey abbey abbey abbey abbey abbey abbey'')) \<noteq> 25"
    by (simp only: split_abbey24 length_replicate)
  then have r1: "importFromMnemonic (\<lambda>s. replicate 32 0) (\<lambda>bs. replicate 64 CHR ''0'') ''abbey abbey abbey abbey abbey abbey abbey abbey abbey abbey abbey abbey abbey abbey abbey abbey abbey abbey abbey abbey abbey abbey abbey abbey''
     = Inl InvalidChecksum"
    by (simp add: importFromMnemonic_def verifyMnemonicChecksum_eq)
  have t: "take 24 (replicate 24 ''abbey'' @ [''word1'']) = replicate 24 ''abbey''" by simp
  have n: "(replicate 24 ''abbey'' @ [''word1'']) ! 24 = ''word1''" by (simp add: nth_append)
  have "split_ws (trim ''abbey abbey abbey abbey abbey abbey abbey abbey abbey abbey abbey abbey abbey abbey abbey abbey abbey abbey abbey abbey abbey abbey abbey abbey word1'') ! 24 \<noteq> checksum_word (take 24 (split_ws (trim ''abbey abbey abbey abbey abbey abbey abbey abbey abbey abbey abbey abbey abbey abbey abbey abbey abbey abbey abbey abbey abbey abbey abbey abbey word1'')))"
    unfolding split_abbey24_word1 t n checksum_word_replicate by simp
  then have r2: "importFromMnemonic (\<lambda>s. replicate 32 0) (\<lambda>bs. replicate 64 CHR ''0'') ''abbey abbey abbey abbey abbey abbey abbey abbey abbey abbey abbey abbey abbey abbey abbey abbey abbey abbey abbey abbey abbey abbey abbey abbey word1''
     = Inl InvalidChecksum"
    by (simp add: importFromMnemonic_def verifyMnemonicChecksum_eq)
  from r1 r2 show ?thesis by simp
qed

text \<open>
  Claim C5. The hash of the source is \<open>keccak256\<close> of \<open>js-sha3\<close>, which returns the
  digest as hexadecimal digits: with \<open>H\<close> the digest as bytes, it is
  \<open>bytesToHex\<close> after \<open>H\<close>. For every public key of 32 bytes, and a digest of at least
  4 bytes, \<open>publicKeyToAddress\<close> is the block encoding of
  \<open>varint(PREFIX) || publicKey || checksum\<close>, where \<open>PREFIX = 0x198004\<close>, the varint is
  the encoding of the specification (groups of 7 bits, least-significant first, the high
  bit on every byte but the last), the checksum is the first 4 bytes of the digest of
  \<open>varint(PREFIX) || publicKey\<close>, and the block encoding is \<open>base58Encode\<close>, which
  is the specification's encoding block by block; the address has 54 characters.
  \<open>encodeVarint\<close> is the encoding of the specification on every argument from 0 up to
  \<open>2^32 - 1\<close>, and \<open>PREFIX\<close> is one.
\<close>

theorem publicKeyToAddress_layout:
  assumes "length pk = 32"
    and "4 \<le> length (H (varint_spec (nat PREFIX) @ pk))"
  shows "PREFIX = 0x198004 \<and>
         encodeVarint PREFIX = varint_spec (nat PREFIX) \<and>
         (\<forall>n. 0 \<le> n \<and> n < 2 ^ 32 \<longrightarrow> encodeVarint n = varint_spec (nat n)) \<and>
         publicKeyToAddress (\<lambda>bs. bytesToHex (H bs)) pk =
           base58Encode (varint_spec (nat PREFIX) @ pk
                         @ take 4 (H (varint_spec (nat PREFIX) @ pk))) \<and>
         publicKeyToAddress (\<lambda>bs. bytesToHex (H bs)) pk =
           Inr (concat (map block_spec (blocks (varint_spec (nat PREFIX) @ pk
                         @ take 4 (H (varint_spec (nat PREFIX) @ pk)))))) \<and>
         (\<exists>s. publicKeyToAddress (\<lambda>bs. bytesToHex (H bs)) pk = Inr s \<and> length s = 54)"
proof -
  have p: "nat PREFIX = 0x198004" by (simp add: PREFIX_def)
  have v: "varint_spec (nat PREFIX) = [0x84, 0x80, 0x66]"
    unfolding p by (rule varint_spec_PREFIX)
  let ?body = "[0x84, 0x80, 0x66] @ pk"
  let ?checksum = "take 4 (H ?body)"
  have h: "4 \<le> length (H ?body)" using assms(2) unfolding v .
  then have c: "length ?checksum = 4" by simp
  have e: "publicKeyToAddress (\<lambda>bs. bytesToHex (H bs)) pk = base58Encode (?body @ ?checksum)"
    using publicKeyToAddress_digest [where H = H and pk = pk, OF h] by simp
  have b: "base58Encode (?body @ ?checksum)
           = Inr (concat (map block_spec (blocks (?body @ ?checksum))))"
    by (rule base58Encode_blocks)
  have "length (?body @ ?checksum) = 39" using assms(1) c by simp
  then have "\<exists>s. base58Encode (?body @ ?checksum) = Inr s \<and> length s = 54"
    using base58Encode_shape [of "?body @ ?checksum"] by simp
  then have l: "\<exists>s. publicKeyToAddress (\<lambda>bs. bytesToHex (H bs)) pk = Inr s \<and> length s = 54"
    by (simp only: e)
  have g: "encodeVarint n = varint_spec (nat n)" if "0 \<le> n \<and> n < 2 ^ 32" for n
    using encodeVarint_loop_spec [of n "[]"] that
    by (simp add: encodeVarint_def Uint8Array_from_def)
  have "PREFIX = 0x198004" by (simp add: PREFIX_def)
  moreover have "encodeVarint PREFIX = varint_spec (nat PREFIX)"
    unfolding v by (rule encodeVarint_PREFIX)
  moreover have "\<forall>n. 0 \<le> n \<and> n < 2 ^ 32 \<longrightarrow> encodeVarint n = varint_spec (nat n)"
    using g by blast
  moreover have "publicKeyToAddress (\<lambda>bs. bytesToHex (H bs)) pk =
      base58Encode (varint_spec (nat PREFIX) @ pk @ take 4 (H (varint_spec (nat PREFIX) @ pk)))"
    unfolding v e by simp
  moreover have "publicKeyToAddress (\<lambda>bs. bytesToHex (H bs)) pk =
      Inr (concat (map block_spec (blocks (varint_spec (nat PREFIX) @ pk
             @ take 4 (H (varint_spec (nat PREFIX) @ pk))))))"
    unfolding v e b by simp
  ultimately show ?thesis using l by blast
qed

text \<open>
  The layout for the public key of the bytes 1 to 32 and a digest that is its argument
  read backwards: the checksum is then the last four bytes of the key, last first.
\<close>

theorem publicKeyToAddress_layout_witness:
  "length (map of_nat [1..<33] :: byte list) = 32 \<and>
   4 \<le> length (rev (varint_spec (nat PREFIX) @ (map of_nat [1..<33] :: byte list))) \<and>
   take 4 (rev (varint_spec (nat PREFIX) @ (map of_nat [1..<33] :: byte list))) = [32, 31, 30, 29] \<and>
   encodeVarint 300 = varint_spec 300 \<and>
   publicKeyToAddress (\<lambda>bs. bytesToHex (rev bs)) (map of_nat [1..<33]) =
     Inr (concat (map block_spec (blocks (varint_spec (nat PREFIX) @ map of_nat [1..<33]
            @ take 4 (rev (varint_spec (nat PREFIX) @ map of_nat [1..<33])))))) \<and>
   (\<exists>s. publicKeyToAddress (\<lambda>bs. bytesToHex (rev bs)) (map of_nat [1..<33]) = Inr s
        \<and> length s = 54)"
proof -
  let ?pk = "map of_nat [1..<33] :: byte list"
  have a: "length ?pk = 32" by simp
  have b: "4 \<le> length (rev (varint_spec (nat PREFIX) @ ?pk))" by simp
  have c: "take 4 (rev (varint_spec (nat PREFIX) @ ?pk)) = [32, 31, 30, 29]"
    by (simp add: upt_rec)
  have d: "(0::int) \<le> 300 \<and> (300::int) < 2 ^ 32" by simp
  note t = publicKeyToAddress_layout [of ?pk rev, OF a b]
  from t d have "encodeVarint 300 = varint_spec (nat 300)" by blast
  then have e: "encodeVarint 300 = varint_spec 300" by simp
  from t a b c e show ?thesis by blast
qed

text \<open>
  Claim C6, as amended. Take a string of 64 characters (every seed of 32 bytes in
  hexadecimal is one, and \<open>hexToBytes\<close> reads it back), \<open>s\<close> the little-endian value of
  its 32 bytes, and a hash whose digest has at least 4 bytes. The code of the repository
  neither reduces \<open>s\<close> modulo the curve order nor compares it with the curve order:
  \<open>s\<close> itself goes to the multiplication of the library. When \<open>1 <= s < curveOrder\<close>,
  \<open>importFromPrivateKey\<close> throws nothing and returns the complete wallet: the private
  key is the string given, the public key the base-point multiple of \<open>s\<close> in
  hexadecimal, the address the block encoding of
  \<open>varint(PREFIX) || publicKey || checksum\<close>, and the mnemonic the 24 words of the seed
  and their checksum word. When \<open>s\<close> is 0 or not below the curve order, it throws the
  \<open>RangeError\<close> of the library.
\<close>

theorem importFromPrivateKey_amended:
  assumes "length privateKeyHex = 64"
    and "\<And>bs. 4 \<le> length (H bs)"
  shows "(1 \<le> le_value (hexToBytes privateKeyHex)
            \<and> le_value (hexToBytes privateKeyHex) < curveOrder \<longrightarrow>
          importFromPrivateKey base_multiply (\<lambda>bs. bytesToHex (H bs)) privateKeyHex =
            Inr \<lparr>address =
                   concat (map block_spec (blocks
                     (varint_spec (nat PREFIX)
                      @ base_multiply (le_value (hexToBytes privateKeyHex))
                      @ take 4 (H (varint_spec (nat PREFIX)
                                   @ base_multiply (le_value (hexToBytes privateKeyHex))))))),
                 privateKey = privateKeyHex,
                 publicKey = bytesToHex (base_multiply (le_value (hexToBytes privateKeyHex))),
                 mnemonic = join '' '' (map Some (seed_words (hexToBytes privateKeyHex)
                              @ [checksum_word (seed_words (hexToBytes privateKeyHex))]))\<rparr>) \<and>
         (le_value (hexToBytes privateKeyHex) = 0
            \<or> curveOrder \<le> le_value (hexToBytes privateKeyHex) \<longrightarrow>
          importFromPrivateKey base_multiply (\<lambda>bs. bytesToHex (H bs)) privateKeyHex
            = Inl RangeError) \<and>
         (length seed = 32 \<longrightarrow>
            length (bytesToHex seed) = 64 \<and> hexToBytes (bytesToHex seed) = seed)"
proof (intro conjI impI)
  let ?s = "le_value (hexToBytes privateKeyHex)"
  let ?pub = "base_multiply ?s"
  assume r: "1 \<le> ?s \<and> ?s < curveOrder"
  have p: "nat PREFIX = 0x198004" by (simp add: PREFIX_def)
  have v: "varint_spec (nat PREFIX) = [0x84, 0x80, 0x66]"
    unfolding p by (rule varint_spec_PREFIX)
  have "publicKeyToAddress (\<lambda>bs. bytesToHex (H bs)) ?pub
        = base58Encode ([0x84, 0x80, 0x66] @ ?pub @ take 4 (H ([0x84, 0x80, 0x66] @ ?pub)))"
    using publicKeyToAddress_digest [where H = H and pk = "?pub", OF assms(2)] .
  then have a: "publicKeyToAddress (\<lambda>bs. bytesToHex (H bs)) ?pub
        = Inr (concat (map block_spec (blocks
            (varint_spec (nat PREFIX) @ ?pub @ take 4 (H (varint_spec (nat PREFIX) @ ?pub))))))"
    unfolding v by (simp only: base58Encode_blocks)
  show "importFromPrivateKey base_multiply (\<lambda>bs. bytesToHex (H bs)) privateKeyHex =
            Inr \<lparr>address =
                   concat (map block_spec (blocks
                     (varint_spec (nat PREFIX) @ ?pub
                      @ take 4 (H (varint_spec (nat PREFIX) @ ?pub))))),
                 privateKey = privateKeyHex,
                 publicKey = bytesToHex ?pub,
                 mnemonic = join '' '' (map Some (seed_words (hexToBytes privateKeyHex)
                              @ [checksum_word (seed_words (hexToBytes privateKeyHex))]))\<rparr>"
    unfolding importFromPrivateKey_eq [OF assms(1)] a using r by simp
next
  let ?s = "le_value (hexToBytes privateKeyHex)"
  assume "?s = 0 \<or> curveOrder \<le> ?s"
  then show "importFromPrivateKey base_multiply (\<lambda>bs. bytesToHex (H bs)) privateKeyHex
             = Inl RangeError"
    unfolding importFromPrivateKey_eq [OF assms(1)] by auto
next
  assume "length seed = 32"
  then show "length (bytesToHex seed) = 64" by (simp add: length_bytesToHex)
next
  show "hexToBytes (bytesToHex seed) = seed" by (rule hexToBytes_bytesToHex)
qed

text \<open>
  The seed \<open>01 00 ... 00\<close>, of scalar 1, is imported; the seed of 32 bytes \<open>0xFF\<close> is
  refused.
\<close>

theorem importFromPrivateKey_amended_witness:
  "length ''0100000000000000000000000000000000000000000000000000000000000000'' = 64 \<and>
   hexToBytes ''0100000000000000000000000000000000000000000000000000000000000000'' = 1 # replicate 31 0 \<and>
   le_value (1 # replicate 31 0) = 1 \<and> 1 < curveOrder \<and>
   importFromPrivateKey (\<lambda>n. replicate 32 (of_nat n))
       (\<lambda>bs. bytesToHex (replicate 32 (of_nat (length bs)))) ''0100000000000000000000000000000000000000000000000000000000000000'' =
     Inr \<lparr>address =
            concat (map block_spec (blocks
              (varint_spec (nat PREFIX) @ replicate 32 1 @ replicate 4 35))),
          privateKey = ''0100000000000000000000000000000000000000000000000000000000000000'',
          publicKey = bytesToHex (replicate 32 1),
          mnemonic = join '' '' (map Some (seed_words (1 # replicate 31 0)
                       @ [checksum_word (seed_words (1 # replicate 31 0))]))\<rparr> \<and>
   length ''ffffffffffffffffffffffffffffffffffffffffffffffffffffffffffffffff'' = 64 \<and>
   curveOrder \<le> le_value (hexToBytes ''ffffffffffffffffffffffffffffffffffffffffffffffffffffffffffffffff'') \<and>
   importFromPrivateKey (\<lambda>n. replicate 32 (of_nat n))
       (\<lambda>bs. bytesToHex (replicate 32 (of_nat (length bs)))) ''ffffffffffffffffffffffffffffffffffffffffffffffffffffffffffffffff'' = Inl RangeError \<and>
   length (replicate 32 (7 :: byte)) = 32 \<and>
   hexToBytes (bytesToHex (replicate 32 (7 :: byte))) = replicate 32 7"
proof -
  let ?o = "''0100000000000000000000000000000000000000000000000000000000000000''"
  let ?f = "''ffffffffffffffffffffffffffffffffffffffffffffffffffffffffffffffff''"
  let ?bm = "\<lambda>n::nat. replicate 32 (of_nat n :: byte)"
  let ?H = "\<lambda>bs::byte list. replicate 32 (of_nat (length bs) :: byte)"
  have lo: "length ?o = 64" by simp
  have lf: "length ?f = 64" by simp
  have h: "\<And>bs. 4 \<le> length (?H bs)" by simp
  have bo: "hexToBytes ?o = 1 # replicate 31 0"
    using hexToBytes_bytesToHex [of "1 # replicate 31 0"] by (simp only: bytesToHex_01)
  have bf: "hexToBytes ?f = replicate 32 0xFF"
    using hexToBytes_bytesToHex [of "replicate 32 0xFF"] by (simp only: bytesToHex_FF)
  have so: "le_value (1 # replicate 31 0) = 1" by (simp add: le_value_replicate_0)
  have c1: "1 < curveOrder" by (simp add: curveOrder_def)
  have "le_value (replicate 32 0xFF) + 1 = 256 ^ 32" by (rule le_value_replicate_FF)
  then have cf: "curveOrder \<le> le_value (hexToBytes ?f)"
    unfolding bf by (simp add: curveOrder_def)
  have p: "nat PREFIX = 0x198004" by (simp add: PREFIX_def)
  have v: "varint_spec (nat PREFIX) = [0x84, 0x80, 0x66]"
    unfolding p by (rule varint_spec_PREFIX)
  note t1 = importFromPrivateKey_amended [of ?o ?H ?bm "replicate 32 7", OF lo h]
  note t2 = importFromPrivateKey_amended [of ?f ?H ?bm "replicate 32 7", OF lf h]
  have r1: "importFromPrivateKey ?bm (\<lambda>bs. bytesToHex (?H bs)) ?o =
     Inr \<lparr>address =
            concat (map block_spec (blocks
              (varint_spec (nat PREFIX) @ replicate 32 1 @ replicate 4 35))),
          privateKey = ?o,
          publicKey = bytesToHex (replicate 32 1),
          mnemonic = join '' '' (map Some (seed_words (1 # replicate 31 0)
                       @ [checksum_word (seed_words (1 # replicate 31 0))]))\<rparr>"
    using t1 c1 unfolding bo so v by simp
  have r2: "importFromPrivateKey ?bm (\<lambda>bs. bytesToHex (?H bs)) ?f = Inl RangeError"
    using t2 cf by blast
  have r3: "length (replicate 32 (7 :: byte)) = 32 \<and>
            hexToBytes (bytesToHex (replicate 32 (7 :: byte))) = replicate 32 7"
    using t1 by simp
  show ?thesis using lo bo so c1 r1 lf cf r2 r3 by blast
qed

text \<open>
  Claim C6 as stated fails: the seed of 32 bytes \<open>0xFF\<close>, whose scalar
  \<open>2^256 - 1\<close> is above the curve order, is not accepted: the import passes the scalar
  to the multiplication of the library as it is, and the library throws a
  \<open>RangeError\<close>. The seed of 32 zero bytes, of scalar 0, is refused the same way.
\<close>

theorem importFromPrivateKey_counterexample:
  "length ''ffffffffffffffffffffffffffffffffffffffffffffffffffffffffffffffff'' = 64 \<and>
   hexToBytes ''ffffffffffffffffffffffffffffffffffffffffffffffffffffffffffffffff'' = replicate 32 0xFF \<and>
   curveOrder \<le> le_value (replicate 32 0xFF) \<and>
   importFromPrivateKey (\<lambda>n. replicate 32 (of_nat n)) (\<lambda>bs. bytesToHex (replicate 32 (of_nat (length bs))))
     ''ffffffffffffffffffffffffffffffffffffffffffffffffffffffffffffffff'' = Inl RangeError \<and>
   length ''0000000000000000000000000000000000000000000000000000000000000000'' = 64 \<and>
   hexToBytes ''0000000000000000000000000000000000000000000000000000000000000000'' = replicate 32 0 \<and>
   importFromPrivateKey (\<lambda>n. replicate 32 (of_nat n)) (\<lambda>bs. bytesToHex (replicate 32 (of_nat (length bs))))
     ''0000000000000000000000000000000000000000000000000000000000000000'' = Inl RangeError"
proof -
  let ?f = "''ffffffffffffffffffffffffffffffffffffffffffffffffffffffffffffffff''"
  let ?z = "''0000000000000000000000000000000000000000000000000000000000000000''"
  have lf: "length ?f = 64" by simp
  have lz: "length ?z = 64" by simp
  have bf: "hexToBytes ?f = replicate 32 0xFF"
    using hexToBytes_bytesToHex [of "replicate 32 0xFF"] by (simp only: bytesToHex_FF)
  have bz: "hexToBytes ?z = replicate 32 0"
    using hexToBytes_bytesToHex [of "replicate 32 0"] by (simp only: bytesToHex_00)
  have "le_value (replicate 32 0xFF) + 1 = 256 ^ 32" by (rule le_value_replicate_FF)
  then have c: "curveOrder \<le> le_value (replicate 32 0xFF)" by (simp add: curveOrder_def)
  have z: "le_value (replicate 32 0) = 0" by (rule le_value_replicate_0)
  have rf: "importFromPrivateKey base_multiply keccak256 ?f = Inl RangeError"
    for base_multiply keccak256
    unfolding importFromPrivateKey_eq [OF lf] bf using c by simp
  have rz: "importFromPrivateKey base_multiply keccak256 ?z = Inl RangeError"
    for base_multiply keccak256
    unfolding importFromPrivateKey_eq [OF lz] bz using z by simp
  show ?thesis using lf lz bf bz c rf rz by blast
qed

text \<open>
  Claim C7. \<open>base58Encode\<close> throws on no buffer. The string it returns is the
  concatenation of the encodings of the blocks of the buffer, 8 bytes each and the last
  one with the 1 to 7 bytes that remain; a block of \<open>N\<close> bytes gives exactly
  \<open>[0, 2, 3, 5, 6, 7, 9, 10, 11][N]\<close> characters, its Base58 digits with the unused leading
  slots filled with the first symbol of the alphabet; so the string has
  \<open>floor(n / 8) * 11 + [0, 2, 3, 5, 6, 7, 9, 10, 11][n mod 8]\<close> characters for a buffer of
  \<open>n\<close> bytes.
\<close>

theorem base58Encode_length:
  "base58Encode buffer = Inr (concat (map block_spec (blocks buffer))) \<and>
   concat (blocks buffer) = buffer \<and>
   list_all (\<lambda>blk. 1 \<le> length blk \<and> length blk \<le> 8 \<and>
                    length (block_spec blk) = [0, 2, 3, 5, 6, 7, 9, 10, 11] ! length blk)
     (blocks buffer) \<and>
   length (concat (map block_spec (blocks buffer)))
     = (length buffer div 8) * 11 + [0, 2, 3, 5, 6, 7, 9, 10, 11] ! (length buffer mod 8)"
proof -
  have a: "base58Encode buffer = Inr (concat (map block_spec (blocks buffer)))"
    by (rule base58Encode_blocks)
  obtain s where s: "base58Encode buffer = Inr s"
    "length s = (length buffer div 8) * 11 + [0, 2, 3, 5, 6, 7, 9, 10, 11] ! (length buffer mod 8)"
    using base58Encode_shape [of buffer] by blast
  have "s = concat (map block_spec (blocks buffer))" using a s(1) by simp
  then have b: "length (concat (map block_spec (blocks buffer)))
     = (length buffer div 8) * 11 + [0, 2, 3, 5, 6, 7, 9, 10, 11] ! (length buffer mod 8)"
    using s(2) by simp
  have "1 \<le> length blk \<and> length blk \<le> 8 \<and>
        length (block_spec blk) = [0, 2, 3, 5, 6, 7, 9, 10, 11] ! length blk"
    if "blk \<in> set (blocks buffer)" for blk
    using blocks_sizes [OF that] length_block_spec [of blk]
    by (simp add: ENCODED_BLOCK_SIZES_def)
  then have c: "list_all (\<lambda>blk. 1 \<le> length blk \<and> length blk \<le> 8 \<and>
                    length (block_spec blk) = [0, 2, 3, 5, 6, 7, 9, 10, 11] ! length blk)
     (blocks buffer)"
    by (simp add: list_all_iff)
  from a b c concat_blocks [of buffer] show ?thesis by (intro conjI)
qed

text \<open>The three bytes of the address prefix are one block of 5 characters.\<close>

theorem base58Encode_length_witness:
  "base58Encode [0x84, 0x80, 0x66] = Inr (concat (map block_spec (blocks [0x84, 0x80, 0x66]))) \<and>
   length (concat (map block_spec (blocks [0x84, 0x80, 0x66]))) = 5"
  using base58Encode_length [of "[0x84, 0x80, 0x66]"] by simp

text \<open>
  Claim C8 fails on the code. The loop stops after the draw that makes \<open>attempts\<close>
  1000, and the test after the loop throws whenever \<open>attempts >= 1000\<close>, without
  looking at the scalar: when the first 999 draws are rejected, \<open>generateWallet\<close> fails
  with \<open>EntropyExhausted\<close> whatever draw number 1000 is, also when its scalar is below
  the curve order.
\<close>

theorem generateWallet_thousandth_draw_rejected:
  assumes "list_all (invalid_draw random) [0..<999]"
    and "random 999 = Inr bs" and "bytesToScalar bs = Inr s"
  shows "generateWallet random base_multiply keccak256 = Inl EntropyExhausted"
proof -
  have "generateWallet_loop random 0 = generateWallet_loop random (0 + 999)"
    using assms(1) by (intro generateWallet_loop_skip_many) (simp_all add: list_all_iff)
  also have "\<dots> = Inr (bs, s, 1000)"
    using generateWallet_loop_stop [of random 999 bs s] assms(2,3) by simp
  finally show ?thesis by (simp add: generateWallet_def)
qed

text \<open>
  The failing input: 999 draws of 32 bytes \<open>0xFF\<close>, then the draw of scalar 1, which is
  below the curve order.
\<close>

theorem generateWallet_thousandth_draw_rejected_witness:
  "bytesToScalar (1 # replicate 31 0) = Inr 1 \<and> 1 < curveOrder \<and>
   generateWallet (\<lambda>k. Inr (if k < 999 then replicate 32 0xFF else 1 # replicate 31 0))
     (\<lambda>s. replicate 32 0) (\<lambda>bs. replicate 64 CHR ''0'') = Inl EntropyExhausted"
proof -
  let ?random = "\<lambda>k::nat. (Inr (if k < 999 then replicate 32 0xFF else 1 # replicate 31 0) :: error + byte list)"
  have good: "bytesToScalar (1 # replicate 31 0) = Inr 1"
    by (simp add: bytesToScalar_eq le_value_replicate_0)
  have "le_value (replicate 32 0xFF) + 1 = 256 ^ 32" by (rule le_value_replicate_FF)
  then have bad: "curveOrder \<le> le_value (replicate 32 0xFF)"
    by (simp add: curveOrder_def)
  have "invalid_draw ?random k" if "k < 999" for k
    using that bad by (simp add: invalid_draw_def bytesToScalar_eq)
  then have "list_all (invalid_draw ?random) [0..<999]"
    by (simp add: list_all_iff)
  moreover have "?random 999 = Inr (1 # replicate 31 0)" by simp
  ultimately have "generateWallet ?random (\<lambda>s. replicate 32 0) (\<lambda>bs. replicate 64 CHR ''0'')
      = Inl EntropyExhausted"
    using good by (rule generateWallet_thousandth_draw_rejected)
  then show ?thesis using good by (simp add: curveOrder_def)
qed

text \<open>
  Claim C9, as amended. \<open>encodeVarint\<close> has no failure: on a negative argument it
  returns the one byte that holds the argument modulo 256. On an argument from 0 up to
  \<open>2^32 - 1\<close> it returns the groups of 7 bits, least-significant group first, with the
  high bit set on every byte but the last: the result is the specification's encoding, it
  reads back as the argument, every byte before the last is at least 128 and the last is
  below 128.
\<close>

theorem encodeVarint_amended:
  "(n < 0 \<longrightarrow> encodeVarint n = [word_of_int n]) \<and>
   (0 \<le> n \<and> n < 2 ^ 32 \<longrightarrow>
      encodeVarint n = varint_spec (nat n) \<and>
      varint_value (encodeVarint n) = nat n \<and>
      (\<forall>b \<in> set (butlast (encodeVarint n)). 128 \<le> unat b) \<and>
      unat (last (encodeVarint n)) < 128)"
proof (intro conjI impI)
  assume "n < 0"
  then show "encodeVarint n = [word_of_int n]" by (simp add: encodeVarint_small)
next
  assume h: "0 \<le> n \<and> n < 2 ^ 32"
  then have e: "encodeVarint n = varint_spec (nat n)"
    using encodeVarint_loop_spec [of n "[]"] by (simp add: encodeVarint_def Uint8Array_from_def)
  show "encodeVarint n = varint_spec (nat n)" by (rule e)
  show "varint_value (encodeVarint n) = nat n" by (simp add: e varint_spec_value)
  show "\<forall>b \<in> set (butlast (encodeVarint n)). 128 \<le> unat b"
    by (simp add: e varint_spec_butlast)
  show "unat (last (encodeVarint n)) < 128" by (simp add: e varint_spec_last)
qed

text \<open>The amended claim at \<open>-1\<close> and at the address prefix \<open>0x198004\<close>.\<close>

theorem encodeVarint_amended_witness:
  "(-1 :: int) < 0 \<and> encodeVarint (-1) = [0xFF] \<and>
   (0 :: int) \<le> 0x198004 \<and> (0x198004 :: int) < 2 ^ 32 \<and>
   encodeVarint 0x198004 = varint_spec 0x198004 \<and>
   varint_value (encodeVarint 0x198004) = 0x198004"
  using encodeVarint_amended [of "-1"] encodeVarint_amended [of "0x198004"] by auto

text \<open>
  Claim C9 as stated fails: \<open>encodeVarint(-1)\<close> returns the array \<open>[255]\<close> and
  throws nothing; and \<open>encodeVarint(2^32)\<close> returns \<open>[0x80, 0x00]\<close>, which is not
  the groups of 7 bits of \<open>2^32\<close>, because the shift works on 32 bits.
\<close>

theorem encodeVarint_counterexample:
  "encodeVarint (-1) = [0xFF] \<and>
   encodeVarint (2 ^ 32) = [0x80, 0x00] \<and>
   varint_spec (2 ^ 32) = [0x80, 0x80, 0x80, 0x80, 0x10]"
  by (simp add: encodeVarint_small encodeVarint_def encodeVarint_loop.simps js_ushr_7
        js_and_def js_or_def ToInt32_def Uint8Array_from_def varint_spec.simps)

text \<open>
  Claim C10. \<open>mnemonicToPrivateKey\<close> throws \<open>'Invalid mnemonic encoding'\<close> on no
  string; on a mnemonic of 25 words whose first 24 are in the word list it returns 32
  bytes.
\<close>

theorem mnemonicToPrivateKey_no_EncodingError:
  "mnemonicToPrivateKey m \<noteq> Inl EncodingError \<and>
   (length (split_ws (trim m)) = 25 \<and> set (take 24 (split_ws (trim m))) \<subseteq> set WORDLIST
      \<longrightarrow> (\<exists>bs. mnemonicToPrivateKey m = Inr bs \<and> length bs = 32))"
proof (cases "length (split_ws (trim m)) = 25")
  case False
  then show ?thesis by (simp add: mnemonicToPrivateKey_def Let_def)
next
  case True
  from mnemonicToPrivateKey_cases [OF True] show ?thesis by auto
qed

text \<open>The claim on the mnemonic of 25 times the first word of the list.\<close>

theorem mnemonicToPrivateKey_no_EncodingError_witness:
  "length (split_ws (trim ''abbey abbey abbey abbey abbey abbey abbey abbey abbey abbey abbey abbey abbey abbey abbey abbey abbey abbey abbey abbey abbey abbey abbey abbey abbey'')) = 25 \<and>
   set (take 24 (split_ws (trim ''abbey abbey abbey abbey abbey abbey abbey abbey abbey abbey abbey abbey abbey abbey abbey abbey abbey abbey abbey abbey abbey abbey abbey abbey abbey''))) \<subseteq> set WORDLIST \<and>
   (\<exists>bs. mnemonicToPrivateKey ''abbey abbey abbey abbey abbey abbey abbey abbey abbey abbey abbey abbey abbey abbey abbey abbey abbey abbey abbey abbey abbey abbey abbey abbey abbey'' = Inr bs \<and> length bs = 32)"
proof -
  have a: "length (split_ws (trim ''abbey abbey abbey abbey abbey abbey abbey abbey abbey abbey abbey abbey abbey abbey abbey abbey abbey abbey abbey abbey abbey abbey abbey abbey abbey'')) = 25" by (simp only: split_abbey25 length_replicate)
  have "take 24 (replicate 25 ''abbey'') = replicate 24 ''abbey''" by simp
  then have b: "set (take 24 (split_ws (trim ''abbey abbey abbey abbey abbey abbey abbey abbey abbey abbey abbey abbey abbey abbey abbey abbey abbey abbey abbey abbey abbey abbey abbey abbey abbey''))) \<subseteq> set WORDLIST"
    using abbey_in_WORDLIST by (simp only: split_abbey25) simp
  from a b mnemonicToPrivateKey_no_EncodingError [of "''abbey abbey abbey abbey abbey abbey abbey abbey abbey abbey abbey abbey abbey abbey abbey abbey abbey abbey abbey abbey abbey abbey abbey abbey abbey''"] show ?thesis by blast
qed

end
